theory Spec2Isabelle
  imports
    Complex_Main
    "HOL-Library.Word"
    "HOL-Library.Sublist"
    "HOL-Library.AList"
    "HOL-Library.Multiset"
    "HOL-Library.Char_ord"
    "HOL-Library.List_Lexorder"
begin

section \<open>The world the notebook runs in\<close>

text \<open>
  The notebook \<^verbatim>\<open>model.ipynb\<close> touches three things: the filesystem, standard output
  and the Keras objects it builds. A path is the list of its components below the
  process's root, so \<^verbatim>\<open>os.path.join(a, b)\<close> is \<open>a @ [b]\<close>. A directory tree is an
  association list from paths to nodes; its order is the order in which
  \<^verbatim>\<open>os.listdir\<close> enumerates entries, and a new entry goes to the end. The root itself
  always exists. Of a file's mode only the read permission is kept.
\<close>

type_synonym byte = "8 word"
type_synonym path = "string list"

datatype node = File (content: "byte list") (readable: bool) | Dir

type_synonym filesys = "(path \<times> node) list"

datatype error =
    FileNotFoundError
  | NotADirectoryError
  | IsADirectoryError
  | FileExistsError
  | PermissionError
  | SameFileError
  | ValueError

text \<open>
  \<open>copies\<close> is the history of the completed calls of \<^verbatim>\<open>shutil.copy\<close>: the source path,
  the destination path that was asked for, and the path that was written.
\<close>

record world =
  fs :: filesys
  stdout :: "string list"
  copies :: "(path \<times> path \<times> path) list"

text \<open>
  A statement either returns a value or raises; in both cases it leaves a world behind.
  Nothing in the notebook catches an exception, so a raise ends every enclosing statement.
\<close>

type_synonym 'a io = "world \<Rightarrow> (error + 'a) \<times> world"

definition io_return :: "'a \<Rightarrow> 'a io" where
  "io_return x = (\<lambda>w. (Inr x, w))"

definition io_raise :: "error \<Rightarrow> 'a io" where
  "io_raise e = (\<lambda>w. (Inl e, w))"

definition io_bind :: "'a io \<Rightarrow> ('a \<Rightarrow> 'b io) \<Rightarrow> 'b io" where
  "io_bind m f = (\<lambda>w. case m w of (Inl e, w') \<Rightarrow> (Inl e, w') | (Inr x, w') \<Rightarrow> f x w')"

text \<open>\<^verbatim>\<open>for x in xs: body\<close>\<close>

fun for_each :: "'a list \<Rightarrow> ('a \<Rightarrow> unit io) \<Rightarrow> unit io" where
  "for_each [] body = io_return ()"
| "for_each (x # xs) body = io_bind (body x) (\<lambda>_. for_each xs body)"

text \<open>A generator expression \<^verbatim>\<open>(f(x) for x in xs)\<close> consumed to its end.\<close>

fun io_map :: "('a \<Rightarrow> 'b io) \<Rightarrow> 'a list \<Rightarrow> 'b list io" where
  "io_map f [] = io_return []"
| "io_map f (x # xs) = io_bind (f x) (\<lambda>y. io_bind (io_map f xs) (\<lambda>ys. io_return (y # ys)))"

subsection \<open>The \<^verbatim>\<open>os\<close> and \<^verbatim>\<open>shutil\<close> calls\<close>

definition lookup :: "filesys \<Rightarrow> path \<Rightarrow> node option" where
  "lookup t p = (if p = [] then Some Dir else map_of t p)"

definition children :: "filesys \<Rightarrow> path \<Rightarrow> string list" where
  "children t p = map (\<lambda>kv. last (fst kv)) (filter (\<lambda>kv. fst kv \<noteq> [] \<and> butlast (fst kv) = p) t)"

definition os_listdir :: "path \<Rightarrow> string list io" where
  "os_listdir p w =
     (case lookup (fs w) p of
        None \<Rightarrow> (Inl FileNotFoundError, w)
      | Some (File bs r) \<Rightarrow> (Inl NotADirectoryError, w)
      | Some Dir \<Rightarrow> (Inr (children (fs w) p), w))"

definition os_path_isdir :: "path \<Rightarrow> bool io" where
  "os_path_isdir p w = (Inr (lookup (fs w) p = Some Dir), w)"

definition os_mkdir :: "path \<Rightarrow> unit io" where
  "os_mkdir p w =
     (case lookup (fs w) p of
        Some n \<Rightarrow> (Inl FileExistsError, w)
      | None \<Rightarrow>
         (case lookup (fs w) (butlast p) of
            None \<Rightarrow> (Inl FileNotFoundError, w)
          | Some (File bs r) \<Rightarrow> (Inl NotADirectoryError, w)
          | Some Dir \<Rightarrow> (Inr (), w\<lparr>fs := AList.update p Dir (fs w)\<rparr>)))"

text \<open>
  \<^verbatim>\<open>os.makedirs(name, exist_ok=True)\<close>: create the parent first when it does not exist,
  passing over a \<^verbatim>\<open>FileExistsError\<close> from that; then \<^verbatim>\<open>mkdir(name)\<close>, whose error is
  dropped exactly when \<open>name\<close> is a directory afterwards.
\<close>

function os_makedirs :: "path \<Rightarrow> unit io" where
  "os_makedirs name w =
     (case (if name \<noteq> [] \<and> lookup (fs w) (butlast name) = None
            then os_makedirs (butlast name) w else (Inr (), w)) of
        (Inl e, w1) \<Rightarrow>
          if e = FileExistsError
          then (case os_mkdir name w1 of
                  (Inl e', w2) \<Rightarrow>
                    if lookup (fs w2) name = Some Dir then (Inr (), w2) else (Inl e', w2)
                | (Inr u, w2) \<Rightarrow> (Inr (), w2))
          else (Inl e, w1)
      | (Inr u, w1) \<Rightarrow>
          (case os_mkdir name w1 of
             (Inl e', w2) \<Rightarrow>
               if lookup (fs w2) name = Some Dir then (Inr (), w2) else (Inl e', w2)
           | (Inr u', w2) \<Rightarrow> (Inr (), w2)))"
  by pat_completeness auto
termination
  by (relation "measure (\<lambda>(name, w). length name)") auto

text \<open>
  \<^verbatim>\<open>shutil.copy(src, dst)\<close>: a destination that is a directory stands for the file of the
  source's base name inside it. Then \<^verbatim>\<open>copyfile\<close> refuses to copy a file onto itself,
  opens the source for reading and the destination for writing, and \<^verbatim>\<open>copymode\<close> gives
  the destination the source's mode. The call returns the path it wrote.
\<close>

definition shutil_copy :: "path \<Rightarrow> path \<Rightarrow> path io" where
  "shutil_copy src dst w =
     (let d = (if lookup (fs w) dst = Some Dir then dst @ [last src] else dst) in
      if src = d then (Inl SameFileError, w)
      else case lookup (fs w) src of
        None \<Rightarrow> (Inl FileNotFoundError, w)
      | Some Dir \<Rightarrow> (Inl IsADirectoryError, w)
      | Some (File bs r) \<Rightarrow>
          if \<not> r then (Inl PermissionError, w)
          else (case lookup (fs w) d of
              Some Dir \<Rightarrow> (Inl IsADirectoryError, w)
            | Some (File bs' r') \<Rightarrow>
                (Inr d, w\<lparr>fs := AList.update d (File bs r) (fs w),
                          copies := copies w @ [(src, dst, d)]\<rparr>)
            | None \<Rightarrow>
               (case lookup (fs w) (butlast d) of
                  None \<Rightarrow> (Inl FileNotFoundError, w)
                | Some (File bs' r') \<Rightarrow> (Inl NotADirectoryError, w)
                | Some Dir \<Rightarrow>
                    (Inr d, w\<lparr>fs := AList.update d (File bs r) (fs w),
                              copies := copies w @ [(src, dst, d)]\<rparr>))))"

definition print :: "string \<Rightarrow> unit io" where
  "print s w = (Inr (), w\<lparr>stdout := stdout w @ [s]\<rparr>)"

subsection \<open>Strings\<close>

text \<open>\<^verbatim>\<open>s.endswith(t)\<close> for a tuple \<open>t\<close> of suffixes.\<close>

definition endswith :: "string \<Rightarrow> string list \<Rightarrow> bool" where
  "endswith s sufs =
     list_ex (\<lambda>suf. length suf \<le> length s \<and> drop (length s - length suf) s = suf) sufs"

text \<open>The decimal digits an f-string writes for a non-negative integer.\<close>

function str_nat :: "nat \<Rightarrow> string" where
  "str_nat n =
     (if n < 10 then [''0123456789'' ! n]
      else str_nat (n div 10) @ [''0123456789'' ! (n mod 10)])"
  by pat_completeness auto
termination
  by (relation "measure (\<lambda>n. n)") auto

section \<open>scikit-learn's \<^verbatim>\<open>train_test_split\<close>\<close>

text \<open>
  The library is not part of the repository; this is what the notebook's call
  \<^verbatim>\<open>train_test_split(images, test_size=split_ratio, random_state=42)\<close> does in it.
  A float \<open>test_size\<close> must lie strictly between 0 and 1; the test set gets
  \<open>ceil(test_size * n_samples)\<close> samples and the train set the rest, and an empty train
  set is a \<^verbatim>\<open>ValueError\<close>. The order comes from \<^verbatim>\<open>RandomState(random_state).permutation\<close>,
  a Fisher-Yates shuffle of \<open>range(n_samples)\<close> running from the last index down:
  the first \<open>n_test\<close> indices of the permutation are the test set, the next \<open>n_train\<close>
  the train set.

  The generator is a parameter: \<open>gen seed n i\<close> is the number it hands out at step \<open>i\<close>
  of shuffling \<open>n\<close> items when freshly seeded with \<open>seed\<close>. The library draws it from
  \<open>0..i\<close>, which \<open>mod\<close> renders. The ratio is an exact rational number.
\<close>

type_synonym rng = "nat \<Rightarrow> nat \<Rightarrow> nat \<Rightarrow> nat"

definition swap :: "'a list \<Rightarrow> nat \<Rightarrow> nat \<Rightarrow> 'a list" where
  "swap xs i j = xs[i := xs ! j, j := xs ! i]"

fun shuffle :: "(nat \<Rightarrow> nat) \<Rightarrow> nat \<Rightarrow> 'a list \<Rightarrow> 'a list" where
  "shuffle draw 0 xs = xs"
| "shuffle draw (Suc i) xs = shuffle draw i (swap xs (Suc i) (draw (Suc i) mod Suc (Suc i)))"

definition permutation :: "rng \<Rightarrow> nat \<Rightarrow> nat \<Rightarrow> nat list" where
  "permutation gen seed n = shuffle (gen seed n) (n - 1) [0..<n]"

definition train_test_split ::
  "rng \<Rightarrow> 'a list \<Rightarrow> rat \<Rightarrow> nat \<Rightarrow> error + ('a list \<times> 'a list)" where
  "train_test_split gen arr test_size random_state =
     (let n_samples = length arr in
      if test_size \<le> 0 \<or> 1 \<le> test_size then Inl ValueError
      else
        let n_test = nat \<lceil>test_size * of_nat n_samples\<rceil>;
            n_train = n_samples - n_test
        in if n_train = 0 then Inl ValueError
           else
             let perm = permutation gen random_state n_samples;
                 ind_test = take n_test perm;
                 ind_train = take n_train (drop n_test perm)
             in Inr (map (\<lambda>i. arr ! i) ind_train, map (\<lambda>i. arr ! i) ind_test))"

section \<open>\<^verbatim>\<open>split_data\<close>\<close>

text \<open>The body of the loop over the entries of the source directory.\<close>

definition split_class :: "rng \<Rightarrow> path \<Rightarrow> path \<Rightarrow> path \<Rightarrow> rat \<Rightarrow> string \<Rightarrow> unit io" where
  "split_class gen source_dir train_dir val_dir split_ratio class_name =
     (let class_dir = source_dir @ [class_name] in
      io_bind (os_path_isdir class_dir) (\<lambda>is_dir.
        if is_dir then
          io_bind (os_listdir class_dir) (\<lambda>entries.
            let images = filter (\<lambda>img. endswith img [''.jpg'', ''.jpeg'', ''.png'']) entries in
            case train_test_split gen images split_ratio 42 of
              Inl e \<Rightarrow> io_raise e
            | Inr (train_images, val_images) \<Rightarrow>
                io_bind (os_makedirs (train_dir @ [class_name])) (\<lambda>_.
                io_bind (os_makedirs (val_dir @ [class_name])) (\<lambda>_.
                io_bind (for_each train_images (\<lambda>img.
                   io_bind (shutil_copy (class_dir @ [img]) (train_dir @ [class_name] @ [img]))
                     (\<lambda>_. io_return ()))) (\<lambda>_.
                for_each val_images (\<lambda>img.
                   io_bind (shutil_copy (class_dir @ [img]) (val_dir @ [class_name] @ [img]))
                     (\<lambda>_. io_return ()))))))
        else io_return ()))"

text \<open>
  \<^verbatim>\<open>sum(len(os.listdir(os.path.join(dir, d))) for d in os.listdir(dir))\<close>, the number
  each of the two final lines reports.
\<close>

definition count_listed :: "path \<Rightarrow> nat io" where
  "count_listed dir =
     io_bind (os_listdir dir) (\<lambda>ds.
     io_bind (io_map (\<lambda>d. io_bind (os_listdir (dir @ [d])) (\<lambda>l. io_return (length l))) ds)
       (\<lambda>ns. io_return (sum_list ns)))"

definition split_data :: "rng \<Rightarrow> path \<Rightarrow> path \<Rightarrow> path \<Rightarrow> rat \<Rightarrow> unit io" where
  "split_data gen source_dir train_dir val_dir split_ratio =
     io_bind (os_listdir source_dir) (\<lambda>class_names.
     io_bind (for_each class_names
                (split_class gen source_dir train_dir val_dir split_ratio)) (\<lambda>_.
     io_bind (count_listed train_dir) (\<lambda>n_train.
     io_bind (print (''Data split complete. Training images: '' @ str_nat n_train)) (\<lambda>_.
     io_bind (count_listed val_dir) (\<lambda>n_val.
     print (''Validation images: '' @ str_nat n_val))))))"

text \<open>The notebook's own call: \<^verbatim>\<open>split_data(base_dir, train_dir, val_dir)\<close>.\<close>

definition base_dir :: path where "base_dir = [''data'']"
definition train_dir :: path where "train_dir = [''train'']"
definition val_dir :: path where "val_dir = [''val'']"

definition default_split_ratio :: rat where "default_split_ratio = 2 / 10"

section \<open>The generators and the network\<close>

text \<open>
  Keras is not part of the repository either. \<^verbatim>\<open>flow_from_directory(directory)\<close> takes
  as classes the subdirectories of \<open>directory\<close>, in sorted order, and numbers them:
  \<^verbatim>\<open>class_indices = dict(zip(classes, range(len(classes))))\<close>. A dictionary is an
  association list in which a key occurs once.
\<close>

definition dict :: "('k \<times> 'v) list \<Rightarrow> ('k \<times> 'v) list" where
  "dict kvs = fold (\<lambda>kv d. AList.update (fst kv) (snd kv) d) kvs []"

definition flow_from_directory :: "path \<Rightarrow> (string \<times> nat) list io" where
  "flow_from_directory directory =
     io_bind (os_listdir directory) (\<lambda>entries.
     io_bind (io_map (\<lambda>subdir. io_bind (os_path_isdir (directory @ [subdir]))
                        (\<lambda>b. io_return (subdir, b))) (sort entries)) (\<lambda>flagged.
       let classes = map fst (filter snd flagged) in
       io_return (dict (zip classes [0..<length classes]))))"

text \<open>
  The layers of the \<^verbatim>\<open>Sequential\<close> model of the notebook, with the shape each one gives
  its output: the backbone turns a \<open>299 \<times> 299 \<times> 3\<close> image into an \<open>8 \<times> 8 \<times> 2048\<close> block,
  global average pooling keeps the channels, a dense layer replaces the last axis by its
  units, and batch normalisation and dropout keep the shape.
\<close>

datatype spec =
    Backbone
  | GlobalAveragePooling2D
  | Dense nat string
  | BatchNormalization
  | Dropout rat

definition img_size :: nat where "img_size = 299"

fun output_shape :: "spec \<Rightarrow> nat list \<Rightarrow> nat list option" where
  "output_shape Backbone s = (if s = [img_size, img_size, 3] then Some [8, 8, 2048] else None)"
| "output_shape GlobalAveragePooling2D s = (if length s = 3 then Some [last s] else None)"
| "output_shape (Dense units activation) s = (if s = [] then None else Some (butlast s @ [units]))"
| "output_shape BatchNormalization s = Some s"
| "output_shape (Dropout rate) s = Some s"

fun sequential_shape :: "spec list \<Rightarrow> nat list \<Rightarrow> nat list option" where
  "sequential_shape [] s = Some s"
| "sequential_shape (l # ls) s =
     (case output_shape l s of None \<Rightarrow> None | Some s' \<Rightarrow> sequential_shape ls s')"

definition model :: "(string \<times> nat) list \<Rightarrow> spec list" where
  "model class_indices =
     [Backbone,
      GlobalAveragePooling2D,
      Dense 512 ''relu'',
      BatchNormalization,
      Dropout (5 / 10),
      Dense 256 ''relu'',
      BatchNormalization,
      Dropout (5 / 10),
      Dense (length class_indices) ''softmax'']"

subsection \<open>Which backbone layers train\<close>

text \<open>
  A layer has a flag \<open>trainable\<close> and weights, whose type is left open. Assigning to
  the \<open>trainable\<close> attribute of a Keras model assigns the value to the model and to every
  one of its layers; \<^verbatim>\<open>fit\<close> changes the weights of the trainable layers and no flag.
  A freshly loaded \<^verbatim>\<open>InceptionV3\<close> is trainable throughout.
\<close>

record 'w layer =
  trainable :: bool
  weights :: 'w

record 'w network =
  network_trainable :: bool
  layers :: "'w layer list"

definition InceptionV3 :: "'w list \<Rightarrow> 'w network" where
  "InceptionV3 imagenet =
     \<lparr>network_trainable = True,
      layers = map (\<lambda>x. \<lparr>trainable = True, weights = x\<rparr>) imagenet\<rparr>"

definition set_trainable :: "bool \<Rightarrow> 'w network \<Rightarrow> 'w network" where
  "set_trainable v m =
     m\<lparr>network_trainable := v, layers := map (\<lambda>l. l\<lparr>trainable := v\<rparr>) (layers m)\<rparr>"

text \<open>\<^verbatim>\<open>for layer in base_model.layers[:249]: layer.trainable = False\<close>\<close>

definition freeze_first :: "nat \<Rightarrow> 'w network \<Rightarrow> 'w network" where
  "freeze_first k m =
     m\<lparr>layers := fold (\<lambda>i ls. ls[i := (ls ! i)\<lparr>trainable := False\<rparr>])
                     [0..<min k (length (layers m))] (layers m)\<rparr>"

definition fit :: "('w \<Rightarrow> 'w) \<Rightarrow> 'w network \<Rightarrow> 'w network" where
  "fit train m =
     m\<lparr>layers := map (\<lambda>l. if trainable l then l\<lparr>weights := train (weights l)\<rparr> else l)
                     (layers m)\<rparr>"

text \<open>
  The cells of the notebook from the one that freezes the backbone to the last, as far
  as the backbone is concerned. \<open>opt epochs\<close> stands for what a call of \<^verbatim>\<open>fit\<close> with
  that many epochs does to the weights of a trainable layer.
\<close>

datatype cell =
    Freeze
  | Define
  | Compile rat
  | Callbacks
  | Fit nat
  | Evaluate
  | FineTune
  | Summary
  | Save

fun exec :: "(nat \<Rightarrow> 'w \<Rightarrow> 'w) \<Rightarrow> cell \<Rightarrow> 'w network \<Rightarrow> 'w network" where
  "exec opt Freeze m = set_trainable False m"
| "exec opt FineTune m = freeze_first 249 (set_trainable True m)"
| "exec opt (Fit epochs) m = fit (opt epochs) m"
| "exec opt Define m = m"
| "exec opt (Compile lr) m = m"
| "exec opt Callbacks m = m"
| "exec opt Evaluate m = m"
| "exec opt Summary m = m"
| "exec opt Save m = m"

definition cells :: "cell list" where
  "cells =
     [Freeze, Define, Compile (1 / 1000), Callbacks, Fit 100, Evaluate,
      FineTune, Compile (1 / 10000), Summary, Fit 50, Evaluate, Summary, Save]"

text \<open>The backbone after the first \<open>k\<close> of these cells.\<close>

definition backbone_after :: "(nat \<Rightarrow> 'w \<Rightarrow> 'w) \<Rightarrow> 'w list \<Rightarrow> nat \<Rightarrow> 'w network" where
  "backbone_after opt imagenet k = fold (exec opt) (take k cells) (InceptionV3 imagenet)"

section \<open>Notions the properties are stated with\<close>

text \<open>
  Two directories are apart when neither lies in the other. The part of a tree below a
  directory is the list of its entries there, in their order. In a tree as a filesystem
  holds it, a path names one entry.
\<close>

definition apart :: "path \<Rightarrow> path \<Rightarrow> bool" where
  "apart a b = (\<not> prefix a b \<and> \<not> prefix b a)"

definition below :: "path \<Rightarrow> filesys \<Rightarrow> filesys" where
  "below d t = filter (\<lambda>kv. prefix d (fst kv)) t"

definition unique_entries :: "filesys \<Rightarrow> bool" where
  "unique_entries t = distinct (map fst t)"

text \<open>The names a run copied into a directory, in the order of the copies.\<close>

definition copied_into :: "path \<Rightarrow> world \<Rightarrow> string list" where
  "copied_into dir w =
     map (\<lambda>c. last (fst (snd c))) (filter (\<lambda>c. butlast (fst (snd c)) = dir) (copies w))"

text \<open>The image files \<^verbatim>\<open>split_data\<close> lists in a class directory.\<close>

definition images_of :: "filesys \<Rightarrow> path \<Rightarrow> string list" where
  "images_of t class_dir =
     filter (\<lambda>img. endswith img [''.jpg'', ''.jpeg'', ''.png'']) (children t class_dir)"

text \<open>
  The source directory and the two destination directories are separate when no one of
  them lies in another, as \<^verbatim>\<open>data\<close>, \<^verbatim>\<open>train\<close> and \<^verbatim>\<open>val\<close> are.
\<close>

definition separate :: "path \<Rightarrow> path \<Rightarrow> path \<Rightarrow> bool" where
  "separate S T V = (apart S T \<and> apart S V \<and> apart T V)"

text \<open>
  What a run of \<^verbatim>\<open>split_data\<close> can do to the world, one step at a time: make a
  directory on the way to a class directory of a destination, copy an image of a class
  into a destination, or print a line.
\<close>

inductive effect :: "path \<Rightarrow> path \<Rightarrow> path \<Rightarrow> world \<Rightarrow> world \<Rightarrow> bool"
  for S T V :: path where
  made:
    "lookup (fs w) p = None \<Longrightarrow> lookup (fs w) (butlast p) = Some Dir \<Longrightarrow>
     prefix p (D @ [c]) \<Longrightarrow> D = T \<or> D = V \<Longrightarrow>
     effect S T V w (w\<lparr>fs := AList.update p Dir (fs w)\<rparr>)"
| copied:
    "endswith i [''.jpg'', ''.jpeg'', ''.png''] \<Longrightarrow> D = T \<or> D = V \<Longrightarrow>
     a = (if lookup (fs w) (D @ [c] @ [i]) = Some Dir then D @ [c] @ [i] @ [i] else D @ [c] @ [i]) \<Longrightarrow>
     lookup (fs w) (S @ [c] @ [i]) = Some (File bs True) \<Longrightarrow>
     S @ [c] @ [i] \<noteq> a \<Longrightarrow>
     lookup (fs w) a \<noteq> Some Dir \<Longrightarrow>
     (lookup (fs w) a = None \<Longrightarrow> lookup (fs w) (butlast a) = Some Dir) \<Longrightarrow>
     effect S T V w
       (w\<lparr>fs := AList.update a (File bs True) (fs w),
          copies := copies w @ [(S @ [c] @ [i], D @ [c] @ [i], a)]\<rparr>)"
| printed:
    "effect S T V w (w\<lparr>stdout := stdout w @ [s]\<rparr>)"

text \<open>A statement stays in a relation when every run of it, completed or not, does.\<close>

definition stays :: "(world \<Rightarrow> world \<Rightarrow> bool) \<Rightarrow> 'a io \<Rightarrow> bool" where
  "stays R m = (\<forall>w r w'. m w = (r, w') \<longrightarrow> R w w')"

text \<open>
  The copies a completed run asks for, read off the tree it starts in: for each class
  directory, in the order of the listing, the train images and then the validation images.
\<close>

definition class_plan ::
  "rng \<Rightarrow> path \<Rightarrow> path \<Rightarrow> path \<Rightarrow> rat \<Rightarrow> filesys \<Rightarrow> string \<Rightarrow> (path \<times> path) list" where
  "class_plan gen S T V r t c =
     (if lookup t (S @ [c]) = Some Dir then
        (case train_test_split gen (images_of t (S @ [c])) r 42 of
           Inl e \<Rightarrow> []
         | Inr (tr, va) \<Rightarrow>
             map (\<lambda>i. (S @ [c] @ [i], T @ [c] @ [i])) tr @
             map (\<lambda>i. (S @ [c] @ [i], V @ [c] @ [i])) va)
      else [])"

definition plan :: "rng \<Rightarrow> path \<Rightarrow> path \<Rightarrow> path \<Rightarrow> rat \<Rightarrow> filesys \<Rightarrow> (path \<times> path) list" where
  "plan gen S T V r t = concat (map (class_plan gen S T V r t) (children t S))"

text \<open>
  The history of copies is kept by a world when each of its entries has the shape of a
  copy of an image of a class into a destination, and the file that was written still
  is what its source is.
\<close>

definition kept :: "path \<Rightarrow> path \<Rightarrow> path \<Rightarrow> world \<Rightarrow> bool" where
  "kept S T V w =
     (\<forall>h\<in>set (copies w).
        (\<exists>c i D. endswith i [''.jpg'', ''.jpeg'', ''.png''] \<and> (D = T \<or> D = V) \<and>
                 fst h = S @ [c] @ [i] \<and> fst (snd h) = D @ [c] @ [i] \<and>
                 (snd (snd h) = D @ [c] @ [i] \<or> snd (snd h) = D @ [c] @ [i] @ [i])) \<and>
        (\<exists>bs. lookup (fs w) (fst h) = Some (File bs True) \<and>
              lookup (fs w) (snd (snd h)) = Some (File bs True)))"

text \<open>The copies a world's history says were asked for: source and destination.\<close>

definition asked :: "world \<Rightarrow> (path \<times> path) list" where
  "asked w = map (\<lambda>h. (fst h, fst (snd h))) (copies w)"

text \<open>The names that a list of copies asked for sends into a directory.\<close>

definition sent :: "path \<Rightarrow> (path \<times> path) list \<Rightarrow> string list" where
  "sent dir qs = map (\<lambda>q. last (snd q)) (filter (\<lambda>q. butlast (snd q) = dir) qs)"

text \<open>Reading a file whole: \<^verbatim>\<open>open(p, 'rb').read()\<close>.\<close>

definition read_file :: "path \<Rightarrow> byte list io" where
  "read_file p w =
     (case lookup (fs w) p of
        None \<Rightarrow> (Inl FileNotFoundError, w)
      | Some Dir \<Rightarrow> (Inl IsADirectoryError, w)
      | Some (File bs r) \<Rightarrow> if r then (Inr bs, w) else (Inl PermissionError, w))"

text \<open>
  The history of copies is shaped when each entry is a copy of a file with an image
  extension from a directory of the source into the directory of the same name of a
  destination.
\<close>

definition shaped :: "path \<Rightarrow> path \<Rightarrow> path \<Rightarrow> world \<Rightarrow> bool" where
  "shaped S T V w =
     (\<forall>h\<in>set (copies w).
        \<exists>c i D. endswith i [''.jpg'', ''.jpeg'', ''.png''] \<and> (D = T \<or> D = V) \<and>
                fst h = S @ [c] @ [i] \<and> fst (snd h) = D @ [c] @ [i])"

text \<open>
  The number of copies a world's history says went below a directory, and a directory
  below which a tree holds nothing.
\<close>

definition copied_below :: "path \<Rightarrow> world \<Rightarrow> nat" where
  "copied_below D w = length (filter (\<lambda>h. prefix D (fst (snd h))) (copies w))"

definition vacant :: "path \<Rightarrow> filesys \<Rightarrow> bool" where
  "vacant D t = list_all (\<lambda>kv. \<not> (prefix D (fst kv) \<and> fst kv \<noteq> D)) t"

text \<open>
  A destination directory is settled in a world when what lies below it are class
  directories, directly, and in them files that the history of copies put there under
  the names it asked for.
\<close>

definition settled :: "path \<Rightarrow> world \<Rightarrow> bool" where
  "settled D w =
     ((\<forall>k\<in>set (map fst (fs w)). prefix D k \<and> k \<noteq> D \<longrightarrow>
         (length k = length D + 1 \<and> lookup (fs w) k = Some Dir) \<or>
         (length k = length D + 2 \<and> lookup (fs w) k \<noteq> Some Dir \<and>
          butlast k \<in> set (map fst (fs w)) \<and> (\<exists>h\<in>set (copies w). fst (snd h) = k))) \<and>
      (\<forall>h\<in>set (copies w). prefix D (fst (snd h)) \<longrightarrow>
         snd (snd h) = fst (snd h) \<and> fst (snd h) \<in> set (map fst (fs w))))"

text \<open>The number of entries that the subdirectories of a directory list.\<close>

definition listed :: "path \<Rightarrow> filesys \<Rightarrow> nat" where
  "listed D t = sum_list (map (\<lambda>d. length (children t (D @ [d]))) (children t D))"

section \<open>Example trees\<close>

text \<open>A training directory with two class directories and a stray file.\<close>

definition labelled_tree :: filesys where
  "labelled_tree =
     [([''train''], Dir),
      ([''train'', ''b''], Dir),
      ([''train'', ''a''], Dir),
      ([''train'', ''a'', ''1.jpg''], File [1] True),
      ([''train'', ''notes.txt''], File [] True)]"

text \<open>
  A dataset of two classes with a stray file beside them and an upper-case extension
  among the six images of the first class, a generator, and the world in which the
  notebook's call of \<^verbatim>\<open>split_data\<close> leaves them.
\<close>

definition demo_tree :: filesys where
  "demo_tree =
     [([''data''], Dir),
      ([''data'', ''cat''], Dir),
      ([''data'', ''cat'', ''1.jpg''], File [1] True),
      ([''data'', ''cat'', ''2.jpeg''], File [2] True),
      ([''data'', ''cat'', ''3.png''], File [3] True),
      ([''data'', ''cat'', ''4.JPG''], File [4] True),
      ([''data'', ''cat'', ''5.jpg''], File [5] True),
      ([''data'', ''cat'', ''6.jpg''], File [6] True),
      ([''data'', ''cat'', ''7.jpg''], File [7] True),
      ([''data'', ''notes.txt''], File [8] True),
      ([''data'', ''dog''], Dir),
      ([''data'', ''dog'', ''a.png''], File [9] True),
      ([''data'', ''dog'', ''b.jpg''], File [10] True),
      ([''data'', ''dog'', ''c.jpg''], File [11] True)]"

definition demo_world :: world where
  "demo_world = \<lparr>fs = demo_tree, stdout = [], copies = []\<rparr>"

definition demo_gen :: rng where
  "demo_gen seed n i = seed + 5 * i + n"

definition demo_done :: world where
  "demo_done =
     \<lparr>fs = demo_tree @
        [([''train''], Dir),
         ([''train'', ''cat''], Dir),
         ([''val''], Dir),
         ([''val'', ''cat''], Dir),
         ([''train'', ''cat'', ''7.jpg''], File [7] True),
         ([''train'', ''cat'', ''6.jpg''], File [6] True),
         ([''train'', ''cat'', ''5.jpg''], File [5] True),
         ([''train'', ''cat'', ''2.jpeg''], File [2] True),
         ([''val'', ''cat'', ''1.jpg''], File [1] True),
         ([''val'', ''cat'', ''3.png''], File [3] True),
         ([''train'', ''dog''], Dir),
         ([''val'', ''dog''], Dir),
         ([''train'', ''dog'', ''a.png''], File [9] True),
         ([''train'', ''dog'', ''b.jpg''], File [10] True),
         ([''val'', ''dog'', ''c.jpg''], File [11] True)],
      stdout =
        [''Data split complete. Training images: 6'',
         ''Validation images: 3''],
      copies =
        [([''data'', ''cat'', ''7.jpg''], [''train'', ''cat'', ''7.jpg''], [''train'', ''cat'', ''7.jpg'']),
         ([''data'', ''cat'', ''6.jpg''], [''train'', ''cat'', ''6.jpg''], [''train'', ''cat'', ''6.jpg'']),
         ([''data'', ''cat'', ''5.jpg''], [''train'', ''cat'', ''5.jpg''], [''train'', ''cat'', ''5.jpg'']),
         ([''data'', ''cat'', ''2.jpeg''], [''train'', ''cat'', ''2.jpeg''], [''train'', ''cat'', ''2.jpeg'']),
         ([''data'', ''cat'', ''1.jpg''], [''val'', ''cat'', ''1.jpg''], [''val'', ''cat'', ''1.jpg'']),
         ([''data'', ''cat'', ''3.png''], [''val'', ''cat'', ''3.png''], [''val'', ''cat'', ''3.png'']),
         ([''data'', ''dog'', ''a.png''], [''train'', ''dog'', ''a.png''], [''train'', ''dog'', ''a.png'']),
         ([''data'', ''dog'', ''b.jpg''], [''train'', ''dog'', ''b.jpg''], [''train'', ''dog'', ''b.jpg'']),
         ([''data'', ''dog'', ''c.jpg''], [''val'', ''dog'', ''c.jpg''], [''val'', ''dog'', ''c.jpg''])]\<rparr>"



text \<open>
  A class with an image that cannot be read, and the world in which the call stops; a
  world without a source directory; and a dataset beside a training directory that
  holds a file from before, with the world the call leaves.
\<close>

definition locked_world :: world where
  "locked_world =
     \<lparr>fs = [([''data''], Dir),
            ([''data'', ''cat''], Dir),
            ([''data'', ''cat'', ''1.jpg''], File [1] True),
            ([''data'', ''cat'', ''2.jpg''], File [2] True),
            ([''data'', ''cat'', ''3.jpg''], File [3] False)],
      stdout = [], copies = []\<rparr>"

definition locked_done :: world where
  "locked_done =
     \<lparr>fs = fs locked_world @
            [([''train''], Dir),
             ([''train'', ''cat''], Dir),
             ([''val''], Dir),
             ([''val'', ''cat''], Dir),
             ([''train'', ''cat'', ''1.jpg''], File [1] True),
             ([''train'', ''cat'', ''2.jpg''], File [2] True)],
      stdout = [],
      copies =
        [([''data'', ''cat'', ''1.jpg''], [''train'', ''cat'', ''1.jpg''], [''train'', ''cat'', ''1.jpg'']),
         ([''data'', ''cat'', ''2.jpg''], [''train'', ''cat'', ''2.jpg''], [''train'', ''cat'', ''2.jpg''])]\<rparr>"

definition empty_world :: world where
  "empty_world = \<lparr>fs = [], stdout = [], copies = []\<rparr>"

definition stale_world :: world where
  "stale_world =
     \<lparr>fs = [([''data''], Dir),
            ([''data'', ''cat''], Dir),
            ([''data'', ''cat'', ''1.jpg''], File [1] True),
            ([''data'', ''cat'', ''2.jpg''], File [2] True),
            ([''train''], Dir),
            ([''train'', ''cat''], Dir),
            ([''train'', ''cat'', ''old.jpg''], File [0] True)],
      stdout = [], copies = []\<rparr>"

definition stale_done :: world where
  "stale_done =
     \<lparr>fs = fs stale_world @
            [([''val''], Dir),
             ([''val'', ''cat''], Dir),
             ([''train'', ''cat'', ''2.jpg''], File [2] True),
             ([''val'', ''cat'', ''1.jpg''], File [1] True)],
      stdout =
        [''Data split complete. Training images: 2'',
         ''Validation images: 1''],
      copies =
        [([''data'', ''cat'', ''2.jpg''], [''train'', ''cat'', ''2.jpg''], [''train'', ''cat'', ''2.jpg'']),
         ([''data'', ''cat'', ''1.jpg''], [''val'', ''cat'', ''1.jpg''], [''val'', ''cat'', ''1.jpg''])]\<rparr>"

section \<open>Statements and their effects\<close>

lemma io_bind_apply:
  "io_bind m f w = (case m w of (Inl e, w') \<Rightarrow> (Inl e, w') | (Inr x, w') \<Rightarrow> f x w')"
  by (simp add: io_bind_def)

lemma io_return_apply: "io_return x w = (Inr x, w)"
  by (simp add: io_return_def)


section \<open>The split of one list\<close>

lemma swap_mset: "i < length xs \<Longrightarrow> j < length xs \<Longrightarrow> mset (swap xs i j) = mset xs"
  unfolding swap_def by (rule mset_swap)

lemma swap_length: "length (swap xs i j) = length xs"
  by (simp add: swap_def)

lemma shuffle_mset: "i < length xs \<Longrightarrow> mset (shuffle draw i xs) = mset xs"
proof (induction i arbitrary: xs)
  case 0
  show ?case by simp
next
  case (Suc i)
  have j: "draw (Suc i) mod Suc (Suc i) < length xs"
    using Suc.prems by (meson Suc_lessI less_trans_Suc mod_less_divisor not_less_eq zero_less_Suc less_le_trans Suc_leI)
  have "mset (shuffle draw i (swap xs (Suc i) (draw (Suc i) mod Suc (Suc i)))) =
        mset (swap xs (Suc i) (draw (Suc i) mod Suc (Suc i)))"
    using Suc.prems by (intro Suc.IH) (simp add: swap_length)
  then show ?case using Suc.prems j by (simp add: swap_mset)
qed

lemma permutation_mset: "mset (permutation gen seed n) = mset [0..<n]"
proof (cases n)
  case 0
  then show ?thesis by (simp add: permutation_def)
next
  case (Suc m)
  then show ?thesis by (simp add: permutation_def shuffle_mset del: upt_Suc)
qed

lemma permutation_length: "length (permutation gen seed n) = n"
  using arg_cong[OF permutation_mset[of gen seed n], of size] by simp

lemma map_nth_permutation:
  "mset (map (\<lambda>i. arr ! i) (permutation gen seed (length arr))) = mset arr"
proof -
  have "mset (map (\<lambda>i. arr ! i) (permutation gen seed (length arr))) =
        image_mset (\<lambda>i. arr ! i) (mset [0..<length arr])"
    by (simp only: mset_map permutation_mset)
  also have "\<dots> = mset (map (\<lambda>i. arr ! i) [0..<length arr])" by (simp only: mset_map)
  also have "\<dots> = mset arr" by (simp add: map_nth)
  finally show ?thesis .
qed

lemma ceiling_ratio_le:
  fixes r :: rat
  assumes "0 < r" "r < 1"
  shows "nat \<lceil>r * of_nat n\<rceil> \<le> n"
proof -
  have "r * of_nat n \<le> of_nat n" using assms by (simp add: mult_left_le_one_le)
  then have "\<lceil>r * of_nat n\<rceil> \<le> int n" by (simp add: ceiling_le_iff)
  then show ?thesis by simp
qed

lemma train_test_split_Inr:
  assumes "train_test_split gen arr r seed = Inr (tr, te)"
  shows "0 < r \<and> r < 1 \<and>
         length te = nat \<lceil>r * of_nat (length arr)\<rceil> \<and>
         length tr = length arr - nat \<lceil>r * of_nat (length arr)\<rceil> \<and>
         0 < length tr \<and>
         mset tr + mset te = mset arr"
proof -
  let ?n = "length arr"
  let ?k = "nat \<lceil>r * of_nat ?n\<rceil>"
  let ?p = "permutation gen seed ?n"
  from assms have r: "0 < r" "r < 1" and k: "?n - ?k \<noteq> 0"
    and tr: "tr = map (\<lambda>i. arr ! i) (take (?n - ?k) (drop ?k ?p))"
    and te: "te = map (\<lambda>i. arr ! i) (take ?k ?p)"
    by (auto simp: train_test_split_def Let_def split: if_splits)
  have kn: "?k \<le> ?n" using r by (rule ceiling_ratio_le)
  have all: "take (?n - ?k) (drop ?k ?p) = drop ?k ?p"
    by (simp add: permutation_length)
  have "mset tr + mset te = mset (map (\<lambda>i. arr ! i) (take ?k ?p)) + mset (map (\<lambda>i. arr ! i) (drop ?k ?p))"
    unfolding tr te all by (simp only: add.commute)
  also have "\<dots> = mset (map (\<lambda>i. arr ! i) (take ?k ?p @ drop ?k ?p))"
    by (simp only: map_append mset_append)
  also have "\<dots> = mset arr" by (simp only: append_take_drop_id map_nth_permutation)
  finally have m: "mset tr + mset te = mset arr" .
  have "length te = ?k" using kn by (simp add: te permutation_length)
  moreover have "length tr = ?n - ?k" by (simp add: tr permutation_length)
  ultimately show ?thesis using r k m by simp
qed

lemma train_test_split_Inl:
  "train_test_split gen arr r seed = Inl e \<Longrightarrow>
     e = ValueError \<and> (r \<le> 0 \<or> 1 \<le> r \<or> length arr \<le> nat \<lceil>r * of_nat (length arr)\<rceil>)"
  by (auto simp: train_test_split_def Let_def split: if_splits)

lemma train_test_split_parts:
  assumes "train_test_split gen arr r seed = Inr (tr, te)"
  shows "set tr \<union> set te = set arr" and "distinct arr \<Longrightarrow> distinct (tr @ te)"
    and "distinct arr \<Longrightarrow> set tr \<inter> set te = {}"
proof -
  from train_test_split_Inr[OF assms] have m: "mset (tr @ te) = mset arr" by simp
  show "set tr \<union> set te = set arr" using mset_eq_setD[OF m] by simp
  show d: "distinct arr \<Longrightarrow> distinct (tr @ te)" using m by (metis mset_eq_imp_distinct_iff)
  show "distinct arr \<Longrightarrow> set tr \<inter> set te = {}" using d by simp
qed

section \<open>Runs as sequences of effects\<close>


lemma io_raise_apply: "io_raise e w = (Inl e, w)"
  by (simp add: io_raise_def)

lemma io_bind_cases:
  assumes "io_bind m f w = (r, w'')"
  obtains (raised) e where "m w = (Inl e, w'')" "r = Inl e"
        | (returned) x w' where "m w = (Inr x, w')" "f x w' = (r, w'')"
  using assms by (auto simp: io_bind_apply split: prod.splits sum.splits)

lemma stays_return: "reflp R \<Longrightarrow> stays R (io_return x)"
  by (simp add: stays_def io_return_apply reflpD)

lemma stays_raise: "reflp R \<Longrightarrow> stays R (io_raise e)"
  by (simp add: stays_def io_raise_apply reflpD)

lemma stays_bind:
  assumes trans: "transp R" and m: "stays R m" and f: "\<And>x. stays R (f x)"
  shows "stays R (io_bind m f)"
  unfolding stays_def
proof (intro allI impI)
  fix w r w'' assume "io_bind m f w = (r, w'')"
  then show "R w w''"
  proof (cases rule: io_bind_cases)
    case (raised e)
    then show ?thesis using m by (simp add: stays_def)
  next
    case (returned x w')
    then have "R w w'" "R w' w''" using m f[of x] by (auto simp: stays_def)
    then show ?thesis by (rule transpD[OF trans])
  qed
qed

lemma stays_for_each:
  assumes refl: "reflp R" and trans: "transp R"
    and body: "\<And>x. x \<in> set xs \<Longrightarrow> stays R (body x)"
  shows "stays R (for_each xs body)"
  using body
proof (induction xs)
  case Nil
  show ?case by (simp add: stays_return refl)
next
  case (Cons x xs)
  have 1: "stays R (body x)" using Cons.prems by simp
  have 2: "stays R (for_each xs body)" using Cons.prems by (intro Cons.IH) simp
  show ?case
    unfolding for_each.simps by (rule stays_bind[OF trans 1 2])
qed

lemma stays_io_map:
  assumes refl: "reflp R" and trans: "transp R"
    and body: "\<And>x. stays R (f x)"
  shows "stays R (io_map f xs)"
proof (induction xs)
  case Nil
  show ?case by (simp add: stays_return refl)
next
  case (Cons x xs)
  have "stays R (io_bind (io_map f xs) (\<lambda>ys. io_return (y # ys)))" for y
    by (rule stays_bind[OF trans Cons.IH stays_return[OF refl]])
  then show ?case
    unfolding io_map.simps by (rule stays_bind[OF trans body])
qed

lemma closure_reflp: "reflp R\<^sup>*\<^sup>*"
  by (rule reflpI) simp

lemma closure_transp: "transp R\<^sup>*\<^sup>*"
  by (rule transpI) (rule rtranclp_trans)

lemma os_listdir_same: "os_listdir p w = (r, w') \<Longrightarrow> w' = w"
  by (auto simp: os_listdir_def split: option.splits node.splits)

lemma os_path_isdir_same: "os_path_isdir p w = (r, w') \<Longrightarrow> w' = w"
  by (auto simp: os_path_isdir_def)

lemma stays_listdir: "reflp R \<Longrightarrow> stays R (os_listdir p)"
  by (auto simp: stays_def reflpD dest: os_listdir_same)

lemma stays_isdir: "reflp R \<Longrightarrow> stays R (os_path_isdir p)"
  by (auto simp: stays_def reflpD dest: os_path_isdir_same)

lemma count_listed_same: "count_listed d w = (r, w') \<Longrightarrow> w' = w"
proof -
  have "stays (\<lambda>w w'. w' = w) (count_listed d)"
    unfolding count_listed_def
    by (intro stays_bind stays_io_map stays_listdir stays_return reflpI transpI) simp_all
  then show "count_listed d w = (r, w') \<Longrightarrow> w' = w" by (simp add: stays_def)
qed

lemma os_mkdir_cases:
  assumes "os_mkdir p w = (r, w')"
  obtains (failed) e where "r = Inl e" "w' = w"
        | (made) "r = Inr ()" "lookup (fs w) p = None" "lookup (fs w) (butlast p) = Some Dir"
                 "w' = w\<lparr>fs := AList.update p Dir (fs w)\<rparr>"
  using assms by (auto simp: os_mkdir_def split: option.splits node.splits)

lemma os_mkdir_effect:
  assumes "os_mkdir p w = (r, w')" "prefix p (D @ [c])" "D = T \<or> D = V"
  shows "(effect S T V)\<^sup>*\<^sup>* w w'"
  using assms(1)
proof (cases rule: os_mkdir_cases)
  case (failed e)
  then show ?thesis by simp
next
  case made
  then show ?thesis using effect.made[of w p D c T V S] assms(2,3) by auto
qed

lemma os_makedirs_effect:
  "os_makedirs name w = (r, w') \<Longrightarrow> prefix name (D @ [c]) \<Longrightarrow> D = T \<or> D = V \<Longrightarrow>
   (effect S T V)\<^sup>*\<^sup>* w w'"
proof (induction name w arbitrary: r w' rule: os_makedirs.induct)
  case (1 name w)
  let ?rec = "name \<noteq> [] \<and> lookup (fs w) (butlast name) = None"
  obtain r1 w1 where first:
    "(if ?rec then os_makedirs (butlast name) w else (Inr (), w)) = (r1, w1)"
    by (cases "if ?rec then os_makedirs (butlast name) w else (Inr (), w)") auto
  have pre: "prefix (butlast name) (D @ [c])"
    using "1.prems"(2) by (metis prefix_order.dual_order.trans prefixeq_butlast)
  have s1: "(effect S T V)\<^sup>*\<^sup>* w w1"
  proof (cases ?rec)
    case True
    with first have "os_makedirs (butlast name) w = (r1, w1)" by simp
    from "1.IH"[OF True this pre "1.prems"(3)] show ?thesis .
  next
    case False
    with first show ?thesis by auto
  qed
  from "1.prems"(1) have run: "os_makedirs name w = (r, w')" .
  have "w' = w1 \<or> (\<exists>r2. os_mkdir name w1 = (r2, w'))"
    using run first
    by (subst (asm) os_makedirs.simps) (auto split: prod.splits sum.splits if_splits)
  then have s2: "(effect S T V)\<^sup>*\<^sup>* w1 w'"
    using os_mkdir_effect[OF _ "1.prems"(2,3)] by auto
  from s1 s2 show ?case by (rule rtranclp_trans)
qed

lemma shutil_copy_cases:
  assumes "shutil_copy src dst w = (r, w')"
  obtains (failed) e where "r = Inl e" "w' = w"
        | (copied) a bs where "r = Inr a"
            "a = (if lookup (fs w) dst = Some Dir then dst @ [last src] else dst)"
            "lookup (fs w) src = Some (File bs True)" "src \<noteq> a" "lookup (fs w) a \<noteq> Some Dir"
            "lookup (fs w) a = None \<Longrightarrow> lookup (fs w) (butlast a) = Some Dir"
            "w' = w\<lparr>fs := AList.update a (File bs True) (fs w), copies := copies w @ [(src, dst, a)]\<rparr>"
  using assms unfolding shutil_copy_def Let_def
  by (auto split: option.splits node.splits if_splits)

lemma shutil_copy_effect:
  assumes "shutil_copy (S @ [c] @ [i]) (D @ [c] @ [i]) w = (r, w')"
    and "endswith i [''.jpg'', ''.jpeg'', ''.png'']" "D = T \<or> D = V"
  shows "(effect S T V)\<^sup>*\<^sup>* w w'"
  using assms(1)
proof (cases rule: shutil_copy_cases)
  case (failed e)
  then show ?thesis by simp
next
  case (copied a bs)
  have a: "a = (if lookup (fs w) (D @ [c] @ [i]) = Some Dir then D @ [c] @ [i] @ [i]
                else D @ [c] @ [i])"
    using copied(2) by simp
  have "effect S T V w w'"
    unfolding copied(7)
    by (rule effect.copied[OF assms(2,3) a copied(3) copied(4) copied(5) copied(6)])
  then show ?thesis by (rule r_into_rtranclp)
qed

lemma print_effect: "print s w = (r, w') \<Longrightarrow> (effect S T V)\<^sup>*\<^sup>* w w'"
  by (auto simp: print_def intro: effect.printed r_into_rtranclp)

lemma copy_loop_effect:
  assumes "D = T \<or> D = V" "\<forall>i\<in>set imgs. endswith i [''.jpg'', ''.jpeg'', ''.png'']"
  shows "stays (effect S T V)\<^sup>*\<^sup>* (for_each imgs (\<lambda>img.
        io_bind (shutil_copy ((S @ [c]) @ [img]) (D @ [c] @ [img])) (\<lambda>_. io_return ())))"
proof (rule stays_for_each)
  show "reflp (effect S T V)\<^sup>*\<^sup>*" by (rule closure_reflp)
  show "transp (effect S T V)\<^sup>*\<^sup>*" by (rule closure_transp)
  fix x assume "x \<in> set imgs"
  then have e: "endswith x [''.jpg'', ''.jpeg'', ''.png'']" using assms(2) by blast
  have cp: "stays (effect S T V)\<^sup>*\<^sup>* (shutil_copy ((S @ [c]) @ [x]) (D @ [c] @ [x]))"
    unfolding stays_def append_assoc
    using shutil_copy_effect[OF _ e assms(1)] by blast
  show "stays (effect S T V)\<^sup>*\<^sup>*
          (io_bind (shutil_copy ((S @ [c]) @ [x]) (D @ [c] @ [x])) (\<lambda>_. io_return ()))"
    by (rule stays_bind[OF closure_transp cp stays_return[OF closure_reflp]])
qed

lemma split_parts_images:
  assumes "train_test_split gen (filter (\<lambda>img. endswith img [''.jpg'', ''.jpeg'', ''.png'']) es) ratio seed = Inr (tr, va)"
  shows "\<forall>i\<in>set tr. endswith i [''.jpg'', ''.jpeg'', ''.png'']"
    and "\<forall>i\<in>set va. endswith i [''.jpg'', ''.jpeg'', ''.png'']"
proof -
  have u: "set tr \<union> set va = set (filter (\<lambda>img. endswith img [''.jpg'', ''.jpeg'', ''.png'']) es)"
    by (rule train_test_split_parts(1)[OF assms])
  show "\<forall>i\<in>set tr. endswith i [''.jpg'', ''.jpeg'', ''.png'']"
  proof
    fix i assume "i \<in> set tr"
    then have "i \<in> set (filter (\<lambda>img. endswith img [''.jpg'', ''.jpeg'', ''.png'']) es)"
      using u by blast
    then show "endswith i [''.jpg'', ''.jpeg'', ''.png'']" by simp
  qed
  show "\<forall>i\<in>set va. endswith i [''.jpg'', ''.jpeg'', ''.png'']"
  proof
    fix i assume "i \<in> set va"
    then have "i \<in> set (filter (\<lambda>img. endswith img [''.jpg'', ''.jpeg'', ''.png'']) es)"
      using u by blast
    then show "endswith i [''.jpg'', ''.jpeg'', ''.png'']" by simp
  qed
qed

lemma split_class_effect: "stays (effect S T V)\<^sup>*\<^sup>* (split_class gen S T V ratio c)"
proof -
  let ?R = "(effect S T V)\<^sup>*\<^sup>*"
  have refl: "reflp ?R" by (rule closure_reflp)
  have trans: "transp ?R" by (rule closure_transp)
  have mkT: "stays ?R (os_makedirs (T @ [c]))"
    unfolding stays_def using os_makedirs_effect[where D=T and c=c and T=T] by blast
  have mkV: "stays ?R (os_makedirs (V @ [c]))"
    unfolding stays_def using os_makedirs_effect[where D=V and c=c and V=V] by blast
  show ?thesis
    unfolding split_class_def Let_def
    apply (rule stays_bind[OF trans stays_isdir[OF refl]])
    subgoal for is_dir
      apply (cases is_dir; simp only: if_True if_False)
       apply (rule stays_bind[OF trans stays_listdir[OF refl]])
      subgoal for entries
        apply (cases "train_test_split gen
                 (filter (\<lambda>img. endswith img [''.jpg'', ''.jpeg'', ''.png'']) entries) ratio 42")
         apply (simp only: sum.case)
         apply (rule stays_raise[OF refl])
        subgoal for p
          apply (cases p)
          apply (simp only: sum.case prod.case)
          apply (rule stays_bind[OF trans mkT])
          apply (rule stays_bind[OF trans mkV])
          apply (rule stays_bind[OF trans])
           apply (rule copy_loop_effect)
            apply simp
           apply (erule split_parts_images(1))
          apply (rule copy_loop_effect)
           apply simp
          apply (erule split_parts_images(2))
          done
        done
      apply (rule stays_return[OF refl])
      done
    done
qed

lemma split_data_effect:
  "split_data gen S T V ratio w = (r, w') \<Longrightarrow> (effect S T V)\<^sup>*\<^sup>* w w'"
proof -
  let ?R = "(effect S T V)\<^sup>*\<^sup>*"
  have refl: "reflp ?R" by (rule closure_reflp)
  have trans: "transp ?R" by (rule closure_transp)
  have cl: "stays ?R (count_listed d)" for d
    by (auto simp: stays_def dest: count_listed_same)
  have pr: "stays ?R (print s)" for s
    by (auto simp: stays_def intro: print_effect)
  have "stays ?R (split_data gen S T V ratio)"
    unfolding split_data_def
    by (intro stays_bind[OF trans] stays_for_each[OF refl trans] stays_listdir[OF refl]
        split_class_effect cl pr)
  then show "split_data gen S T V ratio w = (r, w') \<Longrightarrow> ?R w w'"
    by (simp add: stays_def)
qed

section \<open>What an effect leaves alone\<close>

lemma lookup_update:
  "k \<noteq> [] \<Longrightarrow> lookup (AList.update k v t) k' = (if k' = k then Some v else lookup t k')"
  by (simp add: lookup_def update_conv')

lemma lookup_None_nonempty: "lookup t k = None \<Longrightarrow> k \<noteq> []"
  by (auto simp: lookup_def)

lemma lookup_not_Dir_nonempty: "lookup t k \<noteq> Some Dir \<Longrightarrow> k \<noteq> []"
  by (auto simp: lookup_def)

lemma filter_update_other:
  "\<not> P k \<Longrightarrow> filter (\<lambda>kv. P (fst kv)) (AList.update k v t) = filter (\<lambda>kv. P (fst kv)) t"
  by (induction t) auto

lemma below_update: "\<not> prefix S k \<Longrightarrow> below S (AList.update k v t) = below S t"
  unfolding below_def by (rule filter_update_other)

lemma map_of_filter_key:
  "P k \<Longrightarrow> map_of (filter (\<lambda>kv. P (fst kv)) t) k = map_of t k"
  by (induction t) auto

lemma lookup_below: "prefix S k \<Longrightarrow> lookup (below S t) k = lookup t k"
  by (simp add: lookup_def below_def map_of_filter_key)

lemma children_below: "prefix S p \<Longrightarrow> children (below S t) p = children t p"
proof -
  assume p: "prefix S p"
  have "filter (\<lambda>kv. fst kv \<noteq> [] \<and> butlast (fst kv) = p) (filter (\<lambda>kv. prefix S (fst kv)) t) =
        filter (\<lambda>kv. fst kv \<noteq> [] \<and> butlast (fst kv) = p) t"
    unfolding filter_filter
  proof (rule filter_cong[OF refl])
    fix kv assume "kv \<in> set t"
    show "(prefix S (fst kv) \<and> fst kv \<noteq> [] \<and> butlast (fst kv) = p) =
          (fst kv \<noteq> [] \<and> butlast (fst kv) = p)"
      using p by (metis prefix_order.trans prefixeq_butlast)
  qed
  then show ?thesis by (simp add: children_def below_def)
qed

lemma made_outside:
  assumes "apart S D" "prefix p (D @ [c])"
  shows "\<not> prefix S p"
proof
  assume "prefix S p"
  then have "prefix S (D @ [c])" using assms(2) by (rule prefix_order.trans)
  then have "prefix S D \<or> S = D @ [c]" by (auto simp: prefix_snoc)
  then show False using assms(1) by (auto simp: apart_def)
qed

lemma written_outside:
  assumes "apart S D" "prefix D a"
  shows "\<not> prefix S a"
proof
  assume "prefix S a"
  then have "prefix S D \<or> prefix D S" using assms(2) by (rule prefix_same_cases)
  then show False using assms(1) by (auto simp: apart_def)
qed

lemma copied_under:
  "a = (if b then D @ [c] @ [i] @ [i] else D @ [c] @ [i]) \<Longrightarrow> prefix D a"
  by (simp split: if_splits)

lemma effect_below:
  assumes "effect S T V w w'" "apart S T" "apart S V"
  shows "below S (fs w') = below S (fs w)"
  using assms
proof (cases rule: effect.cases)
  case (made p D c)
  have "apart S D" using made(5) assms(2,3) by auto
  then have "\<not> prefix S p" using made(4) by (rule made_outside)
  then show ?thesis by (simp add: made(1) below_update)
next
  case (copied i D a c bs)
  have "apart S D" using copied(3) assms(2,3) by auto
  moreover have "prefix D a" using copied(4) by (rule copied_under)
  ultimately have "\<not> prefix S a" by (rule written_outside)
  then show ?thesis by (simp add: copied(1) below_update)
next
  case (printed s)
  then show ?thesis by simp
qed

lemma effects_below:
  assumes "(effect S T V)\<^sup>*\<^sup>* w w'" "apart S T" "apart S V"
  shows "below S (fs w') = below S (fs w)"
  using assms(1)
proof (induction rule: rtranclp_induct)
  case base
  show ?case by simp
next
  case (step y z)
  then show ?case using effect_below[OF step(2) assms(2,3)] by simp
qed

lemma effect_unique:
  assumes "effect S T V w w'" "unique_entries (fs w)"
  shows "unique_entries (fs w')"
  using assms by (cases rule: effect.cases) (auto simp: unique_entries_def intro: distinct_update)

lemma effects_unique:
  assumes "(effect S T V)\<^sup>*\<^sup>* w w'" "unique_entries (fs w)"
  shows "unique_entries (fs w')"
  using assms by (induction rule: rtranclp_induct) (auto intro: effect_unique)

text \<open>
  An entry changes only below a destination directory, unless it is a directory that
  was missing on the way to one.
\<close>

lemma effect_frame:
  assumes "effect S T V w w'" "lookup (fs w') k \<noteq> lookup (fs w) k"
  shows "prefix T k \<or> prefix V k \<or>
         (lookup (fs w) k = None \<and> lookup (fs w') k = Some Dir \<and> (prefix k T \<or> prefix k V))"
  using assms
proof (cases rule: effect.cases)
  case (made p D c)
  have p: "p \<noteq> []" using made(2) by (rule lookup_None_nonempty)
  have k: "k = p" using assms(2) made(1) p by (auto simp: lookup_update split: if_splits)
  have "prefix p D \<or> p = D @ [c]" using made(4) by (auto simp: prefix_snoc)
  then show ?thesis using made k p by (auto simp: lookup_update)
next
  case (copied i D a c bs)
  have a: "a \<noteq> []" using copied(7) by (rule lookup_not_Dir_nonempty)
  have k: "k = a" using assms(2) copied(1) a by (auto simp: lookup_update split: if_splits)
  have "prefix D a" using copied(4) by (rule copied_under)
  then show ?thesis using k copied(3) by auto
next
  case (printed s)
  then show ?thesis using assms(2) by simp
qed

lemma effects_frame:
  assumes "(effect S T V)\<^sup>*\<^sup>* w w'"
  shows "\<forall>k. lookup (fs w') k \<noteq> lookup (fs w) k \<longrightarrow>
           prefix T k \<or> prefix V k \<or>
           (lookup (fs w) k = None \<and> lookup (fs w') k = Some Dir \<and> (prefix k T \<or> prefix k V))"
  using assms
proof (induction rule: rtranclp_induct)
  case base
  show ?case by simp
next
  case (step y z)
  show ?case
  proof (intro allI impI)
    fix k assume d: "lookup (fs z) k \<noteq> lookup (fs w) k"
    show "prefix T k \<or> prefix V k \<or>
           (lookup (fs w) k = None \<and> lookup (fs z) k = Some Dir \<and> (prefix k T \<or> prefix k V))"
    proof (cases "lookup (fs z) k = lookup (fs y) k")
      case True
      then show ?thesis using step.IH d by auto
    next
      case False
      from effect_frame[OF step(2) False] show ?thesis
        using step.IH by (metis option.distinct(1))
    qed
  qed
qed

section \<open>What the history of copies says about the tree\<close>

lemma same_written_same_source:
  assumes "apart T V" "D = T \<or> D = V" "D' = T \<or> D' = V"
    and "a = D @ [c] @ [i] \<or> a = D @ [c] @ [i] @ [i]"
    and "a = D' @ [c'] @ [i'] \<or> a = D' @ [c'] @ [i'] @ [i']"
  shows "c' = c \<and> i' = i"
proof -
  have "prefix D a" "prefix D' a" using assms(4,5) by auto
  then have "prefix D D' \<or> prefix D' D" by (rule prefix_same_cases)
  then have "D' = D" using assms(1,2,3) by (auto simp: apart_def)
  then show ?thesis using assms(4,5) by auto
qed

lemma source_not_written:
  assumes "apart S D" "a = D @ [c] @ [i] \<or> a = D @ [c] @ [i] @ [i]"
  shows "S @ x \<noteq> a"
proof
  assume "S @ x = a"
  then have "prefix S a" by auto
  moreover have "prefix D a" using assms(2) by auto
  ultimately show False using written_outside[OF assms(1)] by blast
qed

lemma effect_kept:
  assumes "effect S T V w w'" "separate S T V" "kept S T V w"
  shows "kept S T V w'"
  using assms(1)
proof (cases rule: effect.cases)
  case (made p D c)
  have p: "p \<noteq> []" using made(2) by (rule lookup_None_nonempty)
  have "lookup (fs w') k = lookup (fs w) k" if "lookup (fs w) k \<noteq> None" for k
    using that made(2) by (auto simp: made(1) lookup_update[OF p])
  moreover have "copies w' = copies w" by (simp add: made(1))
  ultimately show ?thesis using assms(3) unfolding kept_def by fastforce
next
  case (printed s)
  then show ?thesis using assms(3) by (simp add: kept_def)
next
  case (copied i D a c bs)
  have a: "a \<noteq> []" using copied(7) by (rule lookup_not_Dir_nonempty)
  have sep: "apart S T" "apart S V" "apart T V" using assms(2) by (auto simp: separate_def)
  have aD: "a = D @ [c] @ [i] \<or> a = D @ [c] @ [i] @ [i]" using copied(4) by (auto split: if_splits)
  have SD: "apart S D" using copied(3) sep by auto
  have lk: "lookup (fs w') k = (if k = a then Some (File bs True) else lookup (fs w) k)" for k
    by (simp add: copied(1) lookup_update[OF a])
  have cs: "copies w' = copies w @ [(S @ [c] @ [i], D @ [c] @ [i], a)]" by (simp add: copied(1))
  show ?thesis
    unfolding kept_def cs
  proof
    fix h assume "h \<in> set (copies w @ [(S @ [c] @ [i], D @ [c] @ [i], a)])"
    then consider (new) "h = (S @ [c] @ [i], D @ [c] @ [i], a)" | (old) "h \<in> set (copies w)" by auto
    then show "(\<exists>c i D. endswith i [''.jpg'', ''.jpeg'', ''.png''] \<and> (D = T \<or> D = V) \<and>
                 fst h = S @ [c] @ [i] \<and> fst (snd h) = D @ [c] @ [i] \<and>
                 (snd (snd h) = D @ [c] @ [i] \<or> snd (snd h) = D @ [c] @ [i] @ [i])) \<and>
        (\<exists>bs. lookup (fs w') (fst h) = Some (File bs True) \<and>
              lookup (fs w') (snd (snd h)) = Some (File bs True))"
    proof cases
      case new
      have "lookup (fs w') (S @ [c] @ [i]) = Some (File bs True)"
        using copied(5,6) by (simp add: lk)
      moreover have "lookup (fs w') a = Some (File bs True)" by (simp add: lk)
      ultimately show ?thesis using new copied(2,3) aD by auto
    next
      case old
      with assms(3) obtain c0 i0 D0 bs0 where
        e0: "endswith i0 [''.jpg'', ''.jpeg'', ''.png'']" and D0: "D0 = T \<or> D0 = V"
        and s0: "fst h = S @ [c0] @ [i0]" and d0: "fst (snd h) = D0 @ [c0] @ [i0]"
        and a0: "snd (snd h) = D0 @ [c0] @ [i0] \<or> snd (snd h) = D0 @ [c0] @ [i0] @ [i0]"
        and l0: "lookup (fs w) (fst h) = Some (File bs0 True)"
          "lookup (fs w) (snd (snd h)) = Some (File bs0 True)"
        unfolding kept_def by blast
      have "fst h \<noteq> a" unfolding s0 using source_not_written[OF SD aD] .
      then have 1: "lookup (fs w') (fst h) = Some (File bs0 True)" using l0 by (simp add: lk)
      have 2: "lookup (fs w') (snd (snd h)) = Some (File bs0 True)"
      proof (cases "snd (snd h) = a")
        case False
        then show ?thesis using l0 by (simp add: lk)
      next
        case True
        have "c0 = c \<and> i0 = i"
          using same_written_same_source[OF sep(3) copied(3) D0 aD] a0 True by simp
        then have "bs0 = bs" using l0(1) copied(5) s0 by simp
        then show ?thesis using True by (simp add: lk)
      qed
      from 1 2 e0 D0 s0 d0 a0 show ?thesis by blast
    qed
  qed
qed

lemma effects_kept:
  assumes "(effect S T V)\<^sup>*\<^sup>* w w'" "separate S T V" "kept S T V w"
  shows "kept S T V w'"
  using assms(1,3) by (induction rule: rtranclp_induct) (auto intro: effect_kept[OF _ assms(2)])

lemma run_kept:
  assumes "separate S T V" "copies w = []" "split_data gen S T V ratio w = (r, w')"
  shows "kept S T V w'"
proof -
  have "kept S T V w" using assms(2) by (simp add: kept_def)
  then show ?thesis by (rule effects_kept[OF split_data_effect[OF assms(3)] assms(1)])
qed

lemma run_below:
  assumes "apart S T" "apart S V" "split_data gen S T V ratio w = (r, w')"
  shows "below S (fs w') = below S (fs w)"
  using effects_below[OF split_data_effect[OF assms(3)] assms(1,2)] .

lemma run_source_lookup:
  assumes "apart S T" "apart S V" "split_data gen S T V ratio w = (r, w')"
  shows "lookup (fs w') (S @ x) = lookup (fs w) (S @ x)"
proof -
  have "lookup (below S (fs w')) (S @ x) = lookup (below S (fs w)) (S @ x)"
    by (simp only: run_below[OF assms])
  then show ?thesis by (simp add: lookup_below)
qed

section \<open>The copies of a completed run\<close>

lemma io_bind_InrD:
  "io_bind m f w = (Inr y, w'') \<Longrightarrow> \<exists>x w'. m w = (Inr x, w') \<and> f x w' = (Inr y, w'')"
  by (auto simp: io_bind_apply split: prod.splits sum.splits)

lemma os_makedirs_rel:
  assumes refl: "reflp R" and trans: "transp R"
    and mk: "\<And>p w r w'. os_mkdir p w = (r, w') \<Longrightarrow> R w w'"
  shows "os_makedirs name w = (r, w') \<Longrightarrow> R w w'"
proof (induction name w arbitrary: r w' rule: os_makedirs.induct)
  case (1 name w)
  let ?rec = "name \<noteq> [] \<and> lookup (fs w) (butlast name) = None"
  obtain r1 w1 where first:
    "(if ?rec then os_makedirs (butlast name) w else (Inr (), w)) = (r1, w1)"
    by (cases "if ?rec then os_makedirs (butlast name) w else (Inr (), w)") auto
  have s1: "R w w1"
  proof (cases ?rec)
    case True
    with first have "os_makedirs (butlast name) w = (r1, w1)" by simp
    from "1.IH"[OF True this] show ?thesis .
  next
    case False
    with first show ?thesis using reflpD[OF refl] by auto
  qed
  have "w' = w1 \<or> (\<exists>r2. os_mkdir name w1 = (r2, w'))"
    using "1.prems" first
    by (subst (asm) os_makedirs.simps) (auto split: prod.splits sum.splits if_splits)
  then have s2: "R w1 w'"
    using mk reflpD[OF refl] by auto
  from s1 s2 show ?case by (rule transpD[OF trans])
qed

lemma os_makedirs_history:
  assumes "os_makedirs name w = (r, w')"
  shows "copies w' = copies w"
proof -
  have "reflp (\<lambda>w w'. copies w' = copies w)" by (rule reflpI) simp
  moreover have "transp (\<lambda>w w'. copies w' = copies w)" by (rule transpI) simp
  moreover have "os_mkdir p w = (r, w') \<Longrightarrow> copies w' = copies w" for p w r w'
    by (erule os_mkdir_cases) simp_all
  ultimately show ?thesis using assms by (rule os_makedirs_rel)
qed

lemma copy_loop_asked:
  "for_each imgs (\<lambda>img. io_bind (shutil_copy (cd @ [img]) (dd @ [img])) (\<lambda>_. io_return ())) w
     = (Inr u, w') \<Longrightarrow>
   asked w' = asked w @ map (\<lambda>i. (cd @ [i], dd @ [i])) imgs"
proof (induction imgs arbitrary: w)
  case Nil
  then show ?case by (simp add: io_return_apply)
next
  case (Cons i imgs)
  from Cons.prems obtain x w1 where
    1: "io_bind (shutil_copy (cd @ [i]) (dd @ [i])) (\<lambda>_. io_return ()) w = (Inr x, w1)"
    and 2: "for_each imgs (\<lambda>img. io_bind (shutil_copy (cd @ [img]) (dd @ [img])) (\<lambda>_. io_return ())) w1
              = (Inr u, w')"
    unfolding for_each.simps by (blast dest: io_bind_InrD)
  from 1 obtain a where 3: "shutil_copy (cd @ [i]) (dd @ [i]) w = (Inr a, w1)"
    by (auto dest!: io_bind_InrD simp: io_return_apply)
  have "copies w1 = copies w @ [(cd @ [i], dd @ [i], a)]"
    using 3 by (rule shutil_copy_cases) auto
  then have "asked w1 = asked w @ [(cd @ [i], dd @ [i])]" by (simp add: asked_def)
  then show ?case using Cons.IH[OF 2] by simp
qed

lemma split_class_asked:
  assumes "split_class gen S T V ratio c w = (Inr u, w')"
  shows "asked w' = asked w @ class_plan gen S T V ratio (fs w) c \<and>
         (lookup (fs w) (S @ [c]) = Some Dir \<longrightarrow>
            (\<exists>tr va. train_test_split gen (images_of (fs w) (S @ [c])) ratio 42 = Inr (tr, va)))"
proof (cases "lookup (fs w) (S @ [c]) = Some Dir")
  case False
  then have "split_class gen S T V ratio c w = (Inr (), w)"
    by (simp add: split_class_def Let_def io_bind_apply os_path_isdir_def io_return_apply)
  then show ?thesis using assms False by (simp add: class_plan_def)
next
  case True
  let ?imgs = "images_of (fs w) (S @ [c])"
  let ?rest = "\<lambda>tr va.
        io_bind (os_makedirs (T @ [c])) (\<lambda>_.
        io_bind (os_makedirs (V @ [c])) (\<lambda>_.
        io_bind (for_each tr (\<lambda>img.
           io_bind (shutil_copy ((S @ [c]) @ [img]) (T @ [c] @ [img])) (\<lambda>_. io_return ()))) (\<lambda>_.
        for_each va (\<lambda>img.
           io_bind (shutil_copy ((S @ [c]) @ [img]) (V @ [c] @ [img])) (\<lambda>_. io_return ())))))"
  have unf: "split_class gen S T V ratio c w =
     (case train_test_split gen ?imgs ratio 42 of
        Inl e \<Rightarrow> (Inl e, w) | Inr (tr, va) \<Rightarrow> ?rest tr va w)"
    using True
    by (simp add: split_class_def Let_def io_bind_apply os_path_isdir_def os_listdir_def images_of_def
        io_raise_apply split: sum.splits)
  from assms unf obtain tr va where
    sp: "train_test_split gen ?imgs ratio 42 = Inr (tr, va)" and run: "?rest tr va w = (Inr u, w')"
    by (auto split: sum.splits)
  from run obtain w1 x1 where m1: "os_makedirs (T @ [c]) w = (Inr x1, w1)"
    and r1: "io_bind (os_makedirs (V @ [c])) (\<lambda>_.
        io_bind (for_each tr (\<lambda>img.
           io_bind (shutil_copy ((S @ [c]) @ [img]) (T @ [c] @ [img])) (\<lambda>_. io_return ()))) (\<lambda>_.
        for_each va (\<lambda>img.
           io_bind (shutil_copy ((S @ [c]) @ [img]) (V @ [c] @ [img])) (\<lambda>_. io_return ())))) w1 = (Inr u, w')"
    by (blast dest: io_bind_InrD)
  from r1 obtain w2 x2 where m2: "os_makedirs (V @ [c]) w1 = (Inr x2, w2)"
    and r2: "io_bind (for_each tr (\<lambda>img.
           io_bind (shutil_copy ((S @ [c]) @ [img]) (T @ [c] @ [img])) (\<lambda>_. io_return ()))) (\<lambda>_.
        for_each va (\<lambda>img.
           io_bind (shutil_copy ((S @ [c]) @ [img]) (V @ [c] @ [img])) (\<lambda>_. io_return ()))) w2 = (Inr u, w')"
    by (blast dest: io_bind_InrD)
  from r2 obtain w3 x3 where l1: "for_each tr (\<lambda>img.
           io_bind (shutil_copy ((S @ [c]) @ [img]) (T @ [c] @ [img])) (\<lambda>_. io_return ())) w2 = (Inr x3, w3)"
    and l2: "for_each va (\<lambda>img.
           io_bind (shutil_copy ((S @ [c]) @ [img]) (V @ [c] @ [img])) (\<lambda>_. io_return ())) w3 = (Inr u, w')"
    by (blast dest: io_bind_InrD)
  have a1: "asked w1 = asked w" using os_makedirs_history[OF m1] by (simp add: asked_def)
  have a2: "asked w2 = asked w1" using os_makedirs_history[OF m2] by (simp add: asked_def)
  have a3: "asked w3 = asked w2 @ map (\<lambda>i. ((S @ [c]) @ [i], (T @ [c]) @ [i])) tr"
    using copy_loop_asked[of tr "S @ [c]" "T @ [c]" w2 x3 w3] l1 by simp
  have a4: "asked w' = asked w3 @ map (\<lambda>i. ((S @ [c]) @ [i], (V @ [c]) @ [i])) va"
    using copy_loop_asked[of va "S @ [c]" "V @ [c]" w3 u w'] l2 by simp
  show ?thesis using a1 a2 a3 a4 sp True by (simp add: class_plan_def)
qed

lemma class_plan_cong:
  assumes "below S t = below S t'"
  shows "class_plan gen S T V ratio t c = class_plan gen S T V ratio t' c"
proof -
  have p: "prefix S (S @ [c])" by simp
  have "lookup t (S @ [c]) = lookup t' (S @ [c])"
    using lookup_below[OF p, of t] lookup_below[OF p, of t'] assms by simp
  moreover have "images_of t (S @ [c]) = images_of t' (S @ [c])"
    using children_below[OF p, of t] children_below[OF p, of t'] assms by (simp add: images_of_def)
  ultimately show ?thesis by (simp add: class_plan_def)
qed

lemma class_loop_asked:
  assumes "apart S T" "apart S V"
  shows "for_each names (split_class gen S T V ratio) w = (Inr u, w') \<Longrightarrow>
     asked w' = asked w @ concat (map (class_plan gen S T V ratio (fs w)) names) \<and>
     (\<forall>c\<in>set names. lookup (fs w) (S @ [c]) = Some Dir \<longrightarrow>
        (\<exists>tr va. train_test_split gen (images_of (fs w) (S @ [c])) ratio 42 = Inr (tr, va)))"
proof (induction names arbitrary: w)
  case Nil
  then show ?case by (simp add: io_return_apply)
next
  case (Cons c names)
  from Cons.prems obtain x w1 where
    1: "split_class gen S T V ratio c w = (Inr x, w1)"
    and 2: "for_each names (split_class gen S T V ratio) w1 = (Inr u, w')"
    unfolding for_each.simps by (blast dest: io_bind_InrD)
  have "(effect S T V)\<^sup>*\<^sup>* w w1" using split_class_effect 1 by (auto simp: stays_def)
  then have b: "below S (fs w1) = below S (fs w)" using assms by (rule effects_below)
  have pc: "class_plan gen S T V ratio (fs w1) = class_plan gen S T V ratio (fs w)"
    by (rule ext) (rule class_plan_cong[OF b])
  have lk: "lookup (fs w1) (S @ [d]) = lookup (fs w) (S @ [d])" for d
    using lookup_below[of S "S @ [d]" "fs w1"] lookup_below[of S "S @ [d]" "fs w"] b by simp
  have im: "images_of (fs w1) (S @ [d]) = images_of (fs w) (S @ [d])" for d
    using children_below[of S "S @ [d]" "fs w1"] children_below[of S "S @ [d]" "fs w"] b
    by (simp add: images_of_def)
  from Cons.IH[OF 2] split_class_asked[OF 1] show ?case
    by (simp add: pc lk im)
qed

lemma run_asked:
  assumes "apart S T" "apart S V" "split_data gen S T V ratio w = (Inr u, w')"
  shows "asked w' = asked w @ plan gen S T V ratio (fs w)"
    and "\<forall>c\<in>set (children (fs w) S). lookup (fs w) (S @ [c]) = Some Dir \<longrightarrow>
        (\<exists>tr va. train_test_split gen (images_of (fs w) (S @ [c])) ratio 42 = Inr (tr, va))"
    and "lookup (fs w) S = Some Dir"
proof -
  from assms(3) obtain names w0 where
    ls: "os_listdir S w = (Inr names, w0)"
    and rest: "io_bind (for_each names (split_class gen S T V ratio)) (\<lambda>_.
     io_bind (count_listed T) (\<lambda>n_train.
     io_bind (print (''Data split complete. Training images: '' @ str_nat n_train)) (\<lambda>_.
     io_bind (count_listed V) (\<lambda>n_val.
     print (''Validation images: '' @ str_nat n_val))))) w0 = (Inr u, w')"
    unfolding split_data_def by (blast dest: io_bind_InrD)
  from ls have w0: "w0 = w" and names: "names = children (fs w) S" and d: "lookup (fs w) S = Some Dir"
    by (auto simp: os_listdir_def split: option.splits node.splits)
  from rest obtain x1 w1 where
    loop: "for_each names (split_class gen S T V ratio) w = (Inr x1, w1)"
    and r1: "io_bind (count_listed T) (\<lambda>n_train.
     io_bind (print (''Data split complete. Training images: '' @ str_nat n_train)) (\<lambda>_.
     io_bind (count_listed V) (\<lambda>n_val.
     print (''Validation images: '' @ str_nat n_val)))) w1 = (Inr u, w')"
    unfolding w0 by (blast dest: io_bind_InrD)
  from r1 obtain n1 w2 where c1: "count_listed T w1 = (Inr n1, w2)"
    and r2: "io_bind (print (''Data split complete. Training images: '' @ str_nat n1)) (\<lambda>_.
     io_bind (count_listed V) (\<lambda>n_val.
     print (''Validation images: '' @ str_nat n_val))) w2 = (Inr u, w')"
    by (blast dest: io_bind_InrD)
  from r2 obtain x3 w3 where p1: "print (''Data split complete. Training images: '' @ str_nat n1) w2 = (Inr x3, w3)"
    and r3: "io_bind (count_listed V) (\<lambda>n_val.
     print (''Validation images: '' @ str_nat n_val)) w3 = (Inr u, w')"
    by (blast dest: io_bind_InrD)
  from r3 obtain n2 w4 where c2: "count_listed V w3 = (Inr n2, w4)"
    and p2: "print (''Validation images: '' @ str_nat n2) w4 = (Inr u, w')"
    by (blast dest: io_bind_InrD)
  have "copies w' = copies w1"
    using count_listed_same[OF c1] count_listed_same[OF c2] p1 p2 by (auto simp: print_def)
  then have "asked w' = asked w1" by (simp add: asked_def)
  with class_loop_asked[OF assms(1,2) loop] names
  show "asked w' = asked w @ plan gen S T V ratio (fs w)"
    and "\<forall>c\<in>set (children (fs w) S). lookup (fs w) (S @ [c]) = Some Dir \<longrightarrow>
        (\<exists>tr va. train_test_split gen (images_of (fs w) (S @ [c])) ratio 42 = Inr (tr, va))"
    by (simp_all add: plan_def)
  show "lookup (fs w) S = Some Dir" by (rule d)
qed

section \<open>What a completed run copies for a class\<close>

lemma copied_into_asked: "copied_into dir w = sent dir (asked w)"
  by (simp add: copied_into_def sent_def asked_def filter_map comp_def)

lemma sent_append: "sent d (xs @ ys) = sent d xs @ sent d ys"
  by (simp add: sent_def)

lemma sent_Nil: "sent d [] = []"
  by (simp add: sent_def)

lemma sent_map: "sent d (map (\<lambda>i. (f i, D @ [c, i])) xs) = (if d = D @ [c] then xs else [])"
  by (induction xs) (auto simp: sent_def butlast_append)

lemma sent_class_plan_other:
  assumes "c' \<noteq> c"
  shows "sent (T @ [c]) (class_plan gen S T V ratio t c') = []"
    and "sent (V @ [c]) (class_plan gen S T V ratio t c') = []"
  using assms
  by (auto simp: class_plan_def sent_append sent_map sent_Nil split: sum.splits)

lemma sent_class_plan_same:
  assumes "T \<noteq> V" "lookup t (S @ [c]) = Some Dir"
    "train_test_split gen (images_of t (S @ [c])) ratio 42 = Inr (tr, va)"
  shows "sent (T @ [c]) (class_plan gen S T V ratio t c) = tr"
    and "sent (V @ [c]) (class_plan gen S T V ratio t c) = va"
  using assms
  by (auto simp: class_plan_def sent_append sent_map sent_Nil)

lemma sent_class_plan_none:
  assumes "lookup t (S @ [c]) \<noteq> Some Dir"
  shows "sent d (class_plan gen S T V ratio t c) = []"
  using assms by (simp add: class_plan_def sent_Nil)

lemma sent_concat_one:
  assumes "distinct names" "\<forall>c'\<in>set names. c' \<noteq> c \<longrightarrow> sent d (f c') = []"
  shows "sent d (concat (map f names)) = (if c \<in> set names then sent d (f c) else [])"
  using assms by (induction names) (auto simp: sent_append sent_Nil)

lemma distinct_children:
  assumes "unique_entries t"
  shows "distinct (children t p)"
proof -
  have "distinct (map fst (filter (\<lambda>kv. fst kv \<noteq> [] \<and> butlast (fst kv) = p) t))"
    using assms unfolding unique_entries_def by (rule distinct_map_filter)
  moreover have "inj_on last (set (map fst (filter (\<lambda>kv. fst kv \<noteq> [] \<and> butlast (fst kv) = p) t)))"
  proof (rule inj_onI)
    fix x y
    assume "x \<in> set (map fst (filter (\<lambda>kv. fst kv \<noteq> [] \<and> butlast (fst kv) = p) t))"
      "y \<in> set (map fst (filter (\<lambda>kv. fst kv \<noteq> [] \<and> butlast (fst kv) = p) t))" "last x = last y"
    then have "x \<noteq> []" "y \<noteq> []" "butlast x = butlast y" "last x = last y" by auto
    then show "x = y" by (metis append_butlast_last_id)
  qed
  ultimately have "distinct (map last (map fst (filter (\<lambda>kv. fst kv \<noteq> [] \<and> butlast (fst kv) = p) t)))"
    by (rule distinct_map[THEN iffD2, OF conjI])
  then show ?thesis by (simp only: children_def map_map comp_def)
qed

lemma distinct_images_of: "unique_entries t \<Longrightarrow> distinct (images_of t p)"
  by (simp add: images_of_def distinct_children)

lemma separate_parts:
  assumes "separate S T V"
  shows "apart S T" "apart S V" "apart T V" "T \<noteq> V"
  using assms by (auto simp: separate_def apart_def)

lemma run_copied_into:
  assumes "separate S T V" "unique_entries (fs w)" "copies w = []"
    and "split_data gen S T V ratio w = (Inr u, w')"
  shows "c \<in> set (children (fs w) S) \<Longrightarrow> lookup (fs w) (S @ [c]) = Some Dir \<Longrightarrow>
         train_test_split gen (images_of (fs w) (S @ [c])) ratio 42 =
           Inr (copied_into (T @ [c]) w', copied_into (V @ [c]) w')"
    and "c \<notin> set (children (fs w) S) \<or> lookup (fs w) (S @ [c]) \<noteq> Some Dir \<Longrightarrow>
         copied_into (T @ [c]) w' = [] \<and> copied_into (V @ [c]) w' = []"
proof -
  note sep = separate_parts[OF assms(1)]
  have a0: "asked w = []" using assms(3) by (simp add: asked_def)
  have a: "asked w' = plan gen S T V ratio (fs w)"
    using run_asked(1)[OF sep(1,2) assms(4)] a0 by simp
  have d: "distinct (children (fs w) S)" using assms(2) by (rule distinct_children)
  have tT: "copied_into (T @ [c]) w' =
      (if c \<in> set (children (fs w) S) then sent (T @ [c]) (class_plan gen S T V ratio (fs w) c) else [])"
    unfolding copied_into_asked a plan_def
    by (rule sent_concat_one[OF d]) (simp add: sent_class_plan_other(1))
  have tV: "copied_into (V @ [c]) w' =
      (if c \<in> set (children (fs w) S) then sent (V @ [c]) (class_plan gen S T V ratio (fs w) c) else [])"
    unfolding copied_into_asked a plan_def
    by (rule sent_concat_one[OF d]) (simp add: sent_class_plan_other(2))
  show "c \<notin> set (children (fs w) S) \<or> lookup (fs w) (S @ [c]) \<noteq> Some Dir \<Longrightarrow>
         copied_into (T @ [c]) w' = [] \<and> copied_into (V @ [c]) w' = []"
    using tT tV by (auto simp: sent_class_plan_none)
  assume c: "c \<in> set (children (fs w) S)" "lookup (fs w) (S @ [c]) = Some Dir"
  with run_asked(2)[OF sep(1,2) assms(4)] obtain tr va where
    sp: "train_test_split gen (images_of (fs w) (S @ [c])) ratio 42 = Inr (tr, va)" by blast
  show "train_test_split gen (images_of (fs w) (S @ [c])) ratio 42 =
           Inr (copied_into (T @ [c]) w', copied_into (V @ [c]) w')"
    using tT tV c sp by (simp add: sent_class_plan_same[OF sep(4) c(2) sp])
qed

section \<open>The example run\<close>

lemma demo_run:
  "split_data demo_gen base_dir train_dir val_dir default_split_ratio demo_world = (Inr (), demo_done)"
  by code_simp

lemma demo_separate: "separate base_dir train_dir val_dir"
  by (simp add: separate_def apart_def base_dir_def train_dir_def val_dir_def)

lemma demo_unique: "unique_entries (fs demo_world)"
  by (simp add: unique_entries_def demo_world_def demo_tree_def)

lemma demo_fresh: "copies demo_world = []"
  by (simp add: demo_world_def)


lemma locked_run:
  "split_data demo_gen base_dir train_dir val_dir default_split_ratio locked_world =
     (Inl PermissionError, locked_done)"
  by code_simp

lemma stale_run:
  "split_data demo_gen base_dir train_dir val_dir default_split_ratio stale_world = (Inr (), stale_done)"
  by code_simp

section \<open>The split of a dataset\<close>

lemma effect_shaped:
  assumes "effect S T V w w'" "shaped S T V w"
  shows "shaped S T V w'"
  using assms(1)
proof (cases rule: effect.cases)
  case (made p D c)
  then show ?thesis using assms(2) by (simp add: shaped_def)
next
  case (printed s)
  then show ?thesis using assms(2) by (simp add: shaped_def)
next
  case (copied i D a c bs)
  have "copies w' = copies w @ [(S @ [c] @ [i], D @ [c] @ [i], a)]" by (simp add: copied(1))
  then show ?thesis using assms(2) copied(2,3) unfolding shaped_def by fastforce
qed

lemma effects_shaped:
  assumes "(effect S T V)\<^sup>*\<^sup>* w w'" "shaped S T V w"
  shows "shaped S T V w'"
  using assms by (induction rule: rtranclp_induct) (auto intro: effect_shaped)

lemma run_shaped:
  assumes "copies w = []" "split_data gen S T V ratio w = (r, w')"
  shows "shaped S T V w'"
proof -
  have "shaped S T V w" using assms(1) by (simp add: shaped_def)
  then show ?thesis by (rule effects_shaped[OF split_data_effect[OF assms(2)]])
qed





text \<open>The example of the specification: of fifty images, forty train and ten validate.\<close>

lemma fifty_images:
  assumes "train_test_split gen arr default_split_ratio seed = Inr (tr, va)" "length arr = 50"
  shows "length tr = 40 \<and> length va = 10"
  using train_test_split_Inr[OF assms(1)] assms(2) by (simp add: default_split_ratio_def)

text \<open>
  Claim C2. In a completed run, the names copied into the train directory of a class and
  those copied into its validation directory have no name in common, and together they
  are the image files listed in the class directory.
\<close>

theorem train_val_partition:
  assumes "separate S T V" and "unique_entries (fs w)" and "copies w = []"
    and "split_data gen S T V ratio w = (Inr u, w')"
    and "c \<in> set (children (fs w) S)" and "lookup (fs w) (S @ [c]) = Some Dir"
  shows "set (copied_into (T @ [c]) w') \<inter> set (copied_into (V @ [c]) w') = {} \<and>
         set (copied_into (T @ [c]) w') \<union> set (copied_into (V @ [c]) w') =
           set (images_of (fs w) (S @ [c])) \<and>
         distinct (copied_into (T @ [c]) w') \<and> distinct (copied_into (V @ [c]) w')"
proof -
  note sp = run_copied_into(1)[OF assms(1-4) assms(5,6)]
  have d: "distinct (images_of (fs w) (S @ [c]))" using assms(2) by (rule distinct_images_of)
  from train_test_split_parts(1)[OF sp] train_test_split_parts(2)[OF sp d]
  show ?thesis by simp
qed

theorem train_val_partition_witness:
  "separate base_dir train_dir val_dir \<and> unique_entries (fs demo_world) \<and> copies demo_world = [] \<and>
   split_data demo_gen base_dir train_dir val_dir default_split_ratio demo_world = (Inr (), demo_done) \<and>
   ''dog'' \<in> set (children (fs demo_world) base_dir) \<and>
   lookup (fs demo_world) (base_dir @ [''dog'']) = Some Dir \<and>
   set (copied_into (train_dir @ [''dog'']) demo_done) \<inter>
     set (copied_into (val_dir @ [''dog'']) demo_done) = {} \<and>
   set (copied_into (train_dir @ [''dog'']) demo_done) \<union>
     set (copied_into (val_dir @ [''dog'']) demo_done) = set (images_of (fs demo_world) (base_dir @ [''dog'']))"
proof -
  have h1: "''dog'' \<in> set (children (fs demo_world) base_dir)" by code_simp
  have h2: "lookup (fs demo_world) (base_dir @ [''dog'']) = Some Dir" by code_simp
  from train_val_partition[OF demo_separate demo_unique demo_fresh demo_run h1 h2]
  show ?thesis using demo_separate demo_unique demo_fresh demo_run h1 h2 by simp
qed



text \<open>
  Claim C4. Every file that a run copied, whether the run completed or not, reads in the
  end as its source read at the start and still reads: the same bytes in the same order.
\<close>

theorem copy_round_trip:
  assumes "separate S T V" and "copies w = []"
    and "split_data gen S T V ratio w = (r, w')"
    and "(src, dst, a) \<in> set (copies w')"
  shows "\<exists>bs. read_file src w = (Inr bs, w) \<and> read_file src w' = (Inr bs, w') \<and>
              read_file a w' = (Inr bs, w')"
proof -
  note sep = separate_parts[OF assms(1)]
  from run_kept[OF assms(1-3)] assms(4) obtain c i bs where
    s: "src = S @ [c] @ [i]"
    and l: "lookup (fs w') src = Some (File bs True)" "lookup (fs w') a = Some (File bs True)"
    unfolding kept_def by fastforce
  have "lookup (fs w) src = lookup (fs w') src"
    unfolding s using run_source_lookup[OF sep(1,2) assms(3)] by simp
  then show ?thesis using l by (simp add: read_file_def)
qed

theorem copy_round_trip_witness:
  "separate base_dir train_dir val_dir \<and> copies demo_world = [] \<and>
   split_data demo_gen base_dir train_dir val_dir default_split_ratio demo_world = (Inr (), demo_done) \<and>
   ([''data'', ''cat'', ''3.png''], [''val'', ''cat'', ''3.png''], [''val'', ''cat'', ''3.png''])
     \<in> set (copies demo_done) \<and>
   read_file [''data'', ''cat'', ''3.png''] demo_world = (Inr [3], demo_world) \<and>
   read_file [''val'', ''cat'', ''3.png''] demo_done = (Inr [3], demo_done)"
proof -
  have h: "([''data'', ''cat'', ''3.png''], [''val'', ''cat'', ''3.png''], [''val'', ''cat'', ''3.png''])
     \<in> set (copies demo_done)"
    by (simp add: demo_done_def)
  have r: "read_file [''data'', ''cat'', ''3.png''] demo_world = (Inr [3], demo_world)"
    by (simp add: read_file_def lookup_def demo_world_def demo_tree_def)
  from copy_round_trip[OF demo_separate demo_fresh demo_run h] r
  show ?thesis using demo_separate demo_fresh demo_run h by auto
qed

text \<open>
  Claim C5. A run, completed or not, leaves the tree below the source directory as it
  was, entry for entry. Elsewhere an entry changes only below a destination directory,
  unless it is a directory that was missing on the way to one and is made.
\<close>

theorem source_tree_unchanged:
  assumes "apart S T" and "apart S V" and "split_data gen S T V ratio w = (r, w')"
  shows "below S (fs w') = below S (fs w) \<and>
         (\<forall>k. lookup (fs w') k \<noteq> lookup (fs w) k \<longrightarrow>
            prefix T k \<or> prefix V k \<or>
            (lookup (fs w) k = None \<and> lookup (fs w') k = Some Dir \<and> (prefix k T \<or> prefix k V)))"
  using effects_below[OF split_data_effect[OF assms(3)] assms(1,2)]
    effects_frame[OF split_data_effect[OF assms(3)]]
  by blast

theorem source_tree_unchanged_witness:
  "apart base_dir train_dir \<and> apart base_dir val_dir \<and>
   split_data demo_gen base_dir train_dir val_dir default_split_ratio demo_world = (Inr (), demo_done) \<and>
   below base_dir (fs demo_done) = demo_tree \<and>
   lookup (fs demo_done) [''train'', ''dog''] \<noteq> lookup (fs demo_world) [''train'', ''dog''] \<and>
   prefix train_dir [''train'', ''dog'']"
proof -
  note sep = separate_parts[OF demo_separate]
  have b: "below base_dir (fs demo_world) = demo_tree"
    by (simp add: below_def demo_world_def demo_tree_def base_dir_def)
  have l: "lookup (fs demo_done) [''train'', ''dog''] \<noteq> lookup (fs demo_world) [''train'', ''dog'']"
    by (simp add: lookup_def demo_done_def demo_world_def demo_tree_def)
  have p: "prefix train_dir [''train'', ''dog'']" by (simp add: train_dir_def)
  from source_tree_unchanged[OF sep(1,2) demo_run] b l p sep(1,2) demo_run
  show ?thesis by simp
qed

text \<open>
  Claim C10. Whatever a run copies is a file with one of the three lower-case extensions
  in a directory directly below the source directory, copied under its own name into the
  directory of that name of a destination. In a completed run the files copied for a
  class directory are exactly the entries with such a name, and nothing is copied for an
  entry of the source directory that is not a directory.
\<close>

theorem only_images_of_class_directories:
  assumes "copies w = []" and "split_data gen S T V ratio w = (r, w')"
  shows "(\<forall>h\<in>set (copies w').
            \<exists>c i. endswith i [''.jpg'', ''.jpeg'', ''.png''] \<and> fst h = S @ [c] @ [i] \<and>
                  (fst (snd h) = T @ [c] @ [i] \<or> fst (snd h) = V @ [c] @ [i])) \<and>
         (separate S T V \<and> unique_entries (fs w) \<and> r = Inr () \<longrightarrow>
            (\<forall>c. (c \<in> set (children (fs w) S) \<and> lookup (fs w) (S @ [c]) = Some Dir \<longrightarrow>
                   set (copied_into (T @ [c]) w') \<union> set (copied_into (V @ [c]) w') =
                     {i \<in> set (children (fs w) (S @ [c])). endswith i [''.jpg'', ''.jpeg'', ''.png'']}) \<and>
                 (lookup (fs w) (S @ [c]) \<noteq> Some Dir \<longrightarrow>
                   copied_into (T @ [c]) w' = [] \<and> copied_into (V @ [c]) w' = [])))"
proof (intro conjI impI allI)
  show "\<forall>h\<in>set (copies w').
            \<exists>c i. endswith i [''.jpg'', ''.jpeg'', ''.png''] \<and> fst h = S @ [c] @ [i] \<and>
                  (fst (snd h) = T @ [c] @ [i] \<or> fst (snd h) = V @ [c] @ [i])"
    using run_shaped[OF assms] unfolding shaped_def by blast
next
  fix c
  assume h: "separate S T V \<and> unique_entries (fs w) \<and> r = Inr ()"
    and c: "c \<in> set (children (fs w) S) \<and> lookup (fs w) (S @ [c]) = Some Dir"
  from h assms(2) have run: "split_data gen S T V ratio w = (Inr (), w')" by simp
  from h have s: "separate S T V" and q: "unique_entries (fs w)" by simp_all
  note sp = run_copied_into(1)[OF s q assms(1) run]
  from train_test_split_parts(1)[OF sp] c
  show "set (copied_into (T @ [c]) w') \<union> set (copied_into (V @ [c]) w') =
          {i \<in> set (children (fs w) (S @ [c])). endswith i [''.jpg'', ''.jpeg'', ''.png'']}"
    by (auto simp: images_of_def)
next
  fix c
  assume h: "separate S T V \<and> unique_entries (fs w) \<and> r = Inr ()"
    and c: "lookup (fs w) (S @ [c]) \<noteq> Some Dir"
  from h assms(2) have run: "split_data gen S T V ratio w = (Inr (), w')" by simp
  from h have s: "separate S T V" and q: "unique_entries (fs w)" by simp_all
  from run_copied_into(2)[OF s q assms(1) run] c
  show "copied_into (T @ [c]) w' = []" "copied_into (V @ [c]) w' = []" by blast+
qed

theorem only_images_of_class_directories_witness:
  "copies demo_world = [] \<and>
   split_data demo_gen base_dir train_dir val_dir default_split_ratio demo_world = (Inr (), demo_done) \<and>
   separate base_dir train_dir val_dir \<and> unique_entries (fs demo_world) \<and>
   ''cat'' \<in> set (children (fs demo_world) base_dir) \<and>
   lookup (fs demo_world) (base_dir @ [''cat'']) = Some Dir \<and>
   ''4.JPG'' \<in> set (children (fs demo_world) (base_dir @ [''cat''])) \<and>
   \<not> endswith ''4.JPG'' [''.jpg'', ''.jpeg'', ''.png''] \<and>
   ''4.JPG'' \<notin> set (copied_into (train_dir @ [''cat'']) demo_done) \<and>
   ''4.JPG'' \<notin> set (copied_into (val_dir @ [''cat'']) demo_done) \<and>
   lookup (fs demo_world) (base_dir @ [''notes.txt'']) \<noteq> Some Dir \<and>
   copied_into (train_dir @ [''notes.txt'']) demo_done = [] \<and>
   copied_into (val_dir @ [''notes.txt'']) demo_done = [] \<and>
   ([''data'', ''dog'', ''c.jpg''], [''val'', ''dog'', ''c.jpg''], [''val'', ''dog'', ''c.jpg''])
     \<in> set (copies demo_done) \<and>
   (\<exists>c i. endswith i [''.jpg'', ''.jpeg'', ''.png''] \<and> [''data'', ''dog'', ''c.jpg''] = base_dir @ [c] @ [i])"
proof -
  have h1: "''cat'' \<in> set (children (fs demo_world) base_dir)" by code_simp
  have h2: "lookup (fs demo_world) (base_dir @ [''cat'']) = Some Dir" by code_simp
  have h3: "''4.JPG'' \<in> set (children (fs demo_world) (base_dir @ [''cat'']))" by code_simp
  have h4: "\<not> endswith ''4.JPG'' [''.jpg'', ''.jpeg'', ''.png'']" by code_simp
  have h5: "lookup (fs demo_world) (base_dir @ [''notes.txt'']) \<noteq> Some Dir" by code_simp
  note t = only_images_of_class_directories[OF demo_fresh demo_run]
  have h6: "([''data'', ''dog'', ''c.jpg''], [''val'', ''dog'', ''c.jpg''], [''val'', ''dog'', ''c.jpg''])
     \<in> set (copies demo_done)"
    by (simp add: demo_done_def)
  from t h6 have a: "\<exists>c i. endswith i [''.jpg'', ''.jpeg'', ''.png''] \<and>
      [''data'', ''dog'', ''c.jpg''] = base_dir @ [c] @ [i]"
    by fastforce
  from t demo_separate demo_unique h1 h2
  have "set (copied_into (train_dir @ [''cat'']) demo_done) \<union>
        set (copied_into (val_dir @ [''cat'']) demo_done) =
        {i \<in> set (children (fs demo_world) (base_dir @ [''cat''])).
           endswith i [''.jpg'', ''.jpeg'', ''.png'']}"
    by blast
  with h4 have b: "''4.JPG'' \<notin> set (copied_into (train_dir @ [''cat'']) demo_done)"
    "''4.JPG'' \<notin> set (copied_into (val_dir @ [''cat'']) demo_done)"
    by blast+
  from t demo_separate demo_unique h5
  have c: "copied_into (train_dir @ [''notes.txt'']) demo_done = []"
    "copied_into (val_dir @ [''notes.txt'']) demo_done = []"
    by blast+
  show ?thesis using demo_fresh demo_run demo_separate demo_unique h1 h2 h3 h4 h5 h6 a b c by blast
qed

section \<open>Errors\<close>

lemma copied_into_member:
  "i \<in> set (copied_into dir w) \<Longrightarrow>
     \<exists>h\<in>set (copies w). butlast (fst (snd h)) = dir \<and> last (fst (snd h)) = i"
  by (auto simp: copied_into_def)

lemma missing_source_raises:
  assumes "os_listdir S w = (Inl e, w1)"
  shows "split_data gen S T V ratio w = (Inl e, w)"
  using assms os_listdir_same[OF assms] by (simp add: split_data_def io_bind_apply)

lemma completed_run_read_all:
  assumes "separate S T V" "unique_entries (fs w)" "copies w = []"
    and "split_data gen S T V ratio w = (Inr u, w')"
    and "c \<in> set (children (fs w) S)" "lookup (fs w) (S @ [c]) = Some Dir"
    and "i \<in> set (images_of (fs w) (S @ [c]))"
  shows "\<exists>bs. lookup (fs w) (S @ [c] @ [i]) = Some (File bs True)"
proof -
  note sep = separate_parts[OF assms(1)]
  note sp = run_copied_into(1)[OF assms(1-4) assms(5,6)]
  from train_test_split_parts(1)[OF sp] assms(7)
  obtain D where D: "D = T \<or> D = V" and i: "i \<in> set (copied_into (D @ [c]) w')" by blast
  from copied_into_member[OF i] obtain h where
    h: "h \<in> set (copies w')" "butlast (fst (snd h)) = D @ [c]" "last (fst (snd h)) = i" by blast
  from run_kept[OF assms(1,3,4)] h(1) obtain c0 i0 D0 bs0 where
    k: "fst h = S @ [c0] @ [i0]" "fst (snd h) = D0 @ [c0] @ [i0]"
      "lookup (fs w') (fst h) = Some (File bs0 True)"
    unfolding kept_def by blast
  have "D0 @ [c0] = D @ [c]" "i0 = i" using h(2,3) k(2) by (simp_all add: butlast_append)
  then have "c0 = c" "i0 = i" by simp_all
  then have "lookup (fs w') (S @ [c] @ [i]) = Some (File bs0 True)" using k(1,3) by simp
  moreover have "lookup (fs w') (S @ [c] @ [i]) = lookup (fs w) (S @ [c] @ [i])"
    by (rule run_source_lookup[OF sep(1,2) assms(4)])
  ultimately have "lookup (fs w) (S @ [c] @ [i]) = Some (File bs0 True)" by (simp only:)
  then show ?thesis by (rule exI)
qed

text \<open>
  Claim C9. An error of a call inside \<^verbatim>\<open>split_data\<close> is the outcome of
  \<^verbatim>\<open>split_data\<close>. If the source directory cannot be listed, the run raises that error
  at once and leaves the world as it was; a missing source directory is a
  \<^verbatim>\<open>FileNotFoundError\<close>. If an image of a class directory cannot be read, the run does
  not complete. And nothing is rolled back: what a run copied before it raised is there
  afterwards.
\<close>

theorem errors_propagate:
  "(os_listdir S w = (Inl e, w1) \<longrightarrow> split_data gen S T V ratio w = (Inl e, w)) \<and>
   (lookup (fs w) S = None \<longrightarrow> split_data gen S T V ratio w = (Inl FileNotFoundError, w)) \<and>
   (separate S T V \<and> unique_entries (fs w) \<and> copies w = [] \<and>
    c \<in> set (children (fs w) S) \<and> lookup (fs w) (S @ [c]) = Some Dir \<and>
    i \<in> set (images_of (fs w) (S @ [c])) \<and> lookup (fs w) (S @ [c] @ [i]) = Some (File bs False)
      \<longrightarrow> (\<exists>e'. fst (split_data gen S T V ratio w) = Inl e')) \<and>
   (separate S T V \<and> copies w = [] \<and> split_data gen S T V ratio w = (Inl e, w') \<and>
    (src, dst, a) \<in> set (copies w')
      \<longrightarrow> (\<exists>bs'. lookup (fs w) src = Some (File bs' True) \<and>
                  lookup (fs w') a = Some (File bs' True)))"
proof (intro conjI impI)
  assume "os_listdir S w = (Inl e, w1)"
  then show "split_data gen S T V ratio w = (Inl e, w)" by (rule missing_source_raises)
next
  assume "lookup (fs w) S = None"
  then have "os_listdir S w = (Inl FileNotFoundError, w)" by (simp add: os_listdir_def)
  then show "split_data gen S T V ratio w = (Inl FileNotFoundError, w)"
    by (rule missing_source_raises)
next
  assume h: "separate S T V \<and> unique_entries (fs w) \<and> copies w = [] \<and>
    c \<in> set (children (fs w) S) \<and> lookup (fs w) (S @ [c]) = Some Dir \<and>
    i \<in> set (images_of (fs w) (S @ [c])) \<and> lookup (fs w) (S @ [c] @ [i]) = Some (File bs False)"
  show "\<exists>e'. fst (split_data gen S T V ratio w) = Inl e'"
  proof (cases "fst (split_data gen S T V ratio w)")
    case (Inl e')
    then show ?thesis by blast
  next
    case (Inr u)
    then have "split_data gen S T V ratio w = (Inr u, snd (split_data gen S T V ratio w))"
      by (metis prod.collapse)
    from completed_run_read_all[OF _ _ _ this, of c i] h show ?thesis by auto
  qed
next
  assume h: "separate S T V \<and> copies w = [] \<and> split_data gen S T V ratio w = (Inl e, w') \<and>
    (src, dst, a) \<in> set (copies w')"
  then have s: "separate S T V" and f: "copies w = []"
    and run: "split_data gen S T V ratio w = (Inl e, w')" and m: "(src, dst, a) \<in> set (copies w')"
    by simp_all
  note sep = separate_parts[OF s]
  from run_kept[OF s f run] m obtain c0 i0 bs0 where
    k: "src = S @ [c0] @ [i0]" "lookup (fs w') src = Some (File bs0 True)"
      "lookup (fs w') a = Some (File bs0 True)"
    unfolding kept_def by fastforce
  have "lookup (fs w) src = lookup (fs w') src"
    unfolding k(1) using run_source_lookup[OF sep(1,2) run] by simp
  then show "\<exists>bs'. lookup (fs w) src = Some (File bs' True) \<and> lookup (fs w') a = Some (File bs' True)"
    using k(2,3) by simp
qed

theorem errors_propagate_witness:
  "os_listdir base_dir empty_world = (Inl FileNotFoundError, empty_world) \<and>
   lookup (fs empty_world) base_dir = None \<and>
   split_data demo_gen base_dir train_dir val_dir default_split_ratio empty_world =
     (Inl FileNotFoundError, empty_world) \<and>
   separate base_dir train_dir val_dir \<and> unique_entries (fs locked_world) \<and> copies locked_world = [] \<and>
   ''cat'' \<in> set (children (fs locked_world) base_dir) \<and>
   lookup (fs locked_world) (base_dir @ [''cat'']) = Some Dir \<and>
   ''3.jpg'' \<in> set (images_of (fs locked_world) (base_dir @ [''cat''])) \<and>
   lookup (fs locked_world) (base_dir @ [''cat''] @ [''3.jpg'']) = Some (File [3] False) \<and>
   split_data demo_gen base_dir train_dir val_dir default_split_ratio locked_world =
     (Inl PermissionError, locked_done) \<and>
   ([''data'', ''cat'', ''1.jpg''], [''train'', ''cat'', ''1.jpg''], [''train'', ''cat'', ''1.jpg''])
     \<in> set (copies locked_done) \<and>
   lookup (fs locked_done) [''train'', ''cat'', ''1.jpg''] = Some (File [1] True)"
proof -
  have e1: "os_listdir base_dir empty_world = (Inl FileNotFoundError, empty_world)" by code_simp
  have e2: "lookup (fs empty_world) base_dir = None" by code_simp
  have u: "unique_entries (fs locked_world)" by (simp add: unique_entries_def locked_world_def)
  have f: "copies locked_world = []" by (simp add: locked_world_def)
  have h1: "''cat'' \<in> set (children (fs locked_world) base_dir)" by code_simp
  have h2: "lookup (fs locked_world) (base_dir @ [''cat'']) = Some Dir" by code_simp
  have h3: "''3.jpg'' \<in> set (images_of (fs locked_world) (base_dir @ [''cat'']))" by code_simp
  have h4: "lookup (fs locked_world) (base_dir @ [''cat''] @ [''3.jpg'']) = Some (File [3] False)"
    by code_simp
  have h5: "([''data'', ''cat'', ''1.jpg''], [''train'', ''cat'', ''1.jpg''], [''train'', ''cat'', ''1.jpg''])
     \<in> set (copies locked_done)"
    by (simp add: locked_done_def)
  have s: "lookup (fs locked_world) [''data'', ''cat'', ''1.jpg''] = Some (File [1] True)" by code_simp
  have 1: "split_data demo_gen base_dir train_dir val_dir default_split_ratio empty_world =
     (Inl FileNotFoundError, empty_world)"
    using errors_propagate[of base_dir empty_world FileNotFoundError empty_world demo_gen train_dir val_dir
        default_split_ratio] e1 by blast
  have 2: "\<exists>bs'. lookup (fs locked_world) [''data'', ''cat'', ''1.jpg''] = Some (File bs' True) \<and>
      lookup (fs locked_done) [''train'', ''cat'', ''1.jpg''] = Some (File bs' True)"
    using errors_propagate[of base_dir locked_world PermissionError _ demo_gen train_dir val_dir
        default_split_ratio _ _ _ locked_done "[''data'', ''cat'', ''1.jpg'']"
        "[''train'', ''cat'', ''1.jpg'']" "[''train'', ''cat'', ''1.jpg'']"]
      demo_separate f locked_run h5 by blast
  then have 3: "lookup (fs locked_done) [''train'', ''cat'', ''1.jpg''] = Some (File [1] True)"
    using s by simp
  show ?thesis using e1 e2 1 demo_separate u f h1 h2 h3 h4 locked_run h5 3 by blast
qed

section \<open>What the destinations hold\<close>

lemma key_iff_lookup: "k \<noteq> [] \<Longrightarrow> k \<in> set (map fst t) \<longleftrightarrow> lookup t k \<noteq> None"
  by (simp add: lookup_def map_of_eq_None_iff)

lemma keys_update: "fst ` set (AList.update k v t) = insert k (fst ` set t)"
  using arg_cong[OF update_keys[of k v t], of set] by (auto simp: image_iff)

lemma other_destination:
  assumes "separate S T V" "D = T \<or> D = V" "D' = T \<or> D' = V"
  shows "D' = D \<or> apart D D'"
  using assms by (auto simp: separate_def apart_def)

lemma made_below:
  assumes "prefix D p" "p \<noteq> D" "prefix p (D' @ [c])" "D' = D \<or> apart D D'"
  shows "D' = D \<and> p = D @ [c]"
proof -
  have "prefix D (D' @ [c])" using assms(1,3) by (rule prefix_order.trans)
  then have "prefix D D' \<or> D = D' @ [c]" by (auto simp: prefix_snoc)
  then have d: "D' = D"
  proof
    assume "prefix D D'"
    then show ?thesis using assms(4) by (auto simp: apart_def)
  next
    assume "D = D' @ [c]"
    then have "prefix D' D" by simp
    then show ?thesis using assms(4) by (auto simp: apart_def)
  qed
  have "prefix p D \<or> p = D @ [c]" using assms(3) d by (auto simp: prefix_snoc)
  then show ?thesis using assms(1,2) d by (auto dest: prefix_order.antisym)
qed

lemma effect_settled:
  assumes "effect S T V w w'" "separate S T V" "D = T \<or> D = V" "settled D w"
  shows "settled D w'"
  using assms(1)
proof (cases rule: effect.cases)
  case (printed s)
  then show ?thesis using assms(4) by (simp add: settled_def)
next
  case (made p D' c)
  have p: "p \<noteq> []" using made(2) by (rule lookup_None_nonempty)
  have od: "D' = D \<or> apart D D'" using other_destination[OF assms(2,3) made(5)] .
  have keys: "fst ` set (fs w') = insert p (fst ` set (fs w))"
    by (simp add: made(1) keys_update)
  have lk: "lookup (fs w') k = (if k = p then Some Dir else lookup (fs w) k)" for k
    by (simp add: made(1) lookup_update[OF p])
  have cs: "copies w' = copies w" by (simp add: made(1))
  have pk: "p \<notin> set (map fst (fs w))" using made(2) key_iff_lookup[OF p] by simp
  show ?thesis
    unfolding settled_def
  proof (intro conjI ballI impI)
    fix k assume k: "k \<in> set (map fst (fs w'))" and b: "prefix D k \<and> k \<noteq> D"
    show "(length k = length D + 1 \<and> lookup (fs w') k = Some Dir) \<or>
          (length k = length D + 2 \<and> lookup (fs w') k \<noteq> Some Dir \<and>
           butlast k \<in> set (map fst (fs w')) \<and> (\<exists>h\<in>set (copies w'). fst (snd h) = k))"
    proof (cases "k = p")
      case True
      from made_below[OF _ _ made(4) od] b True have "p = D @ [c]" by simp
      then show ?thesis using True by (simp add: lk)
    next
      case False
      then have "k \<in> set (map fst (fs w))" using k keys by simp
      with assms(4) b have
        "(length k = length D + 1 \<and> lookup (fs w) k = Some Dir) \<or>
          (length k = length D + 2 \<and> lookup (fs w) k \<noteq> Some Dir \<and>
           butlast k \<in> set (map fst (fs w)) \<and> (\<exists>h\<in>set (copies w). fst (snd h) = k))"
        unfolding settled_def by blast
      then show ?thesis using False by (auto simp: lk keys cs)
    qed
  next
    fix h assume "h \<in> set (copies w')" "prefix D (fst (snd h))"
    then show "snd (snd h) = fst (snd h)" "fst (snd h) \<in> set (map fst (fs w'))"
      using assms(4) by (auto simp: settled_def cs keys)
  qed
next
  case (copied i D' a c bs)
  have a: "a \<noteq> []" using copied(7) by (rule lookup_not_Dir_nonempty)
  have od: "D' = D \<or> apart D D'" using other_destination[OF assms(2,3) copied(3)] .
  have keys: "fst ` set (fs w') = insert a (fst ` set (fs w))"
    by (simp add: copied(1) keys_update)
  have lk: "lookup (fs w') k = (if k = a then Some (File bs True) else lookup (fs w) k)" for k
    by (simp add: copied(1) lookup_update[OF a])
  have cs: "copies w' = copies w @ [(S @ [c] @ [i], D' @ [c] @ [i], a)]" by (simp add: copied(1))
  have pa: "prefix D' a" using copied(4) by (rule copied_under)
  have old: "(length k = length D + 1 \<and> lookup (fs w) k = Some Dir) \<or>
          (length k = length D + 2 \<and> lookup (fs w) k \<noteq> Some Dir \<and>
           butlast k \<in> set (map fst (fs w)) \<and> (\<exists>h\<in>set (copies w). fst (snd h) = k))"
    if "k \<in> set (map fst (fs w))" "prefix D k" "k \<noteq> D" for k
    using assms(4) that unfolding settled_def by blast
  show ?thesis
  proof (cases "D' = D")
    case False
    then have ap: "apart D D'" using od by simp
    have na: "\<not> prefix D a" using written_outside[OF ap pa] .
    have nd: "\<not> prefix D (D' @ [c] @ [i])" using written_outside[OF ap, of "D' @ [c] @ [i]"] by simp
    show ?thesis
      unfolding settled_def
    proof (intro conjI ballI impI)
      fix k assume k: "k \<in> set (map fst (fs w'))" and b: "prefix D k \<and> k \<noteq> D"
      then have ka: "k \<noteq> a" using na by auto
      then have "k \<in> set (map fst (fs w))" using k keys by simp
      from old[OF this] b ka
      show "(length k = length D + 1 \<and> lookup (fs w') k = Some Dir) \<or>
          (length k = length D + 2 \<and> lookup (fs w') k \<noteq> Some Dir \<and>
           butlast k \<in> set (map fst (fs w')) \<and> (\<exists>h\<in>set (copies w'). fst (snd h) = k))"
        by (auto simp: lk keys cs)
    next
      fix h assume "h \<in> set (copies w')" "prefix D (fst (snd h))"
      then have "h \<in> set (copies w)" using nd unfolding cs by auto
      then show "snd (snd h) = fst (snd h)" "fst (snd h) \<in> set (map fst (fs w'))"
        using assms(4) \<open>prefix D (fst (snd h))\<close> by (auto simp: settled_def keys)
    qed
  next
    case True
    have nodir: "lookup (fs w) (D @ [c] @ [i]) \<noteq> Some Dir"
    proof
      assume d: "lookup (fs w) (D @ [c] @ [i]) = Some Dir"
      then have "D @ [c] @ [i] \<in> set (map fst (fs w))"
        using key_iff_lookup[of "D @ [c] @ [i]" "fs w"] by simp
      from old[OF this] d show False by simp
    qed
    then have ad: "a = D @ [c] @ [i]" using copied(4) True by simp
    have par: "butlast a \<in> set (map fst (fs w))"
    proof (cases "lookup (fs w) a = None")
      case True
      then have "lookup (fs w) (butlast a) = Some Dir" by (rule copied(8))
      then show ?thesis using key_iff_lookup[of "butlast a" "fs w"] ad by (simp add: butlast_append)
    next
      case False
      then have "a \<in> set (map fst (fs w))" using key_iff_lookup[OF a] by simp
      from old[OF this] ad show ?thesis by auto
    qed
    show ?thesis
      unfolding settled_def
    proof (intro conjI ballI impI)
      fix k assume k: "k \<in> set (map fst (fs w'))" and b: "prefix D k \<and> k \<noteq> D"
      show "(length k = length D + 1 \<and> lookup (fs w') k = Some Dir) \<or>
          (length k = length D + 2 \<and> lookup (fs w') k \<noteq> Some Dir \<and>
           butlast k \<in> set (map fst (fs w')) \<and> (\<exists>h\<in>set (copies w'). fst (snd h) = k))"
      proof (cases "k = a")
        case True
        then show ?thesis using ad par \<open>D' = D\<close> by (auto simp: lk keys cs)
      next
        case False
        then have "k \<in> set (map fst (fs w))" using k keys by simp
        from old[OF this] b False show ?thesis by (auto simp: lk keys cs)
      qed
    next
      fix h assume h: "h \<in> set (copies w')" "prefix D (fst (snd h))"
      show "snd (snd h) = fst (snd h)"
        using h assms(4) ad \<open>D' = D\<close> by (auto simp: settled_def cs)
      show "fst (snd h) \<in> set (map fst (fs w'))"
        using h assms(4) ad \<open>D' = D\<close> by (auto simp: settled_def cs keys)
    qed
  qed
qed

lemma effects_settled:
  assumes "(effect S T V)\<^sup>*\<^sup>* w w'" "separate S T V" "D = T \<or> D = V" "settled D w"
  shows "settled D w'"
  using assms(1,4)
  by (induction rule: rtranclp_induct) (auto intro: effect_settled[OF _ assms(2,3)])

lemma run_settled:
  assumes "separate S T V" "D = T \<or> D = V" "vacant D (fs w)" "copies w = []"
    and "split_data gen S T V ratio w = (r, w')"
  shows "settled D w'"
proof -
  have "settled D w"
    using assms(3,4) by (auto simp: settled_def vacant_def list_all_iff)
  then show ?thesis by (rule effects_settled[OF split_data_effect[OF assms(5)] assms(1,2)])
qed

section \<open>What the run reports\<close>

lemma sum_indicator:
  assumes "distinct ds" "\<forall>d\<in>set ds. \<forall>d'\<in>set ds. Q d \<and> Q d' \<longrightarrow> d = d'"
  shows "sum_list (map (\<lambda>d. if Q d then 1 else 0) ds) = (if \<exists>d\<in>set ds. Q d then (1::nat) else 0)"
  using assms
proof (induction ds)
  case Nil
  show ?case by simp
next
  case (Cons d ds)
  have IH: "sum_list (map (\<lambda>d. if Q d then 1 else 0) ds) = (if \<exists>d\<in>set ds. Q d then (1::nat) else 0)"
    using Cons.prems by (intro Cons.IH) auto
  show ?case
  proof (cases "Q d")
    case True
    have "\<not> (\<exists>d'\<in>set ds. Q d')" using Cons.prems True by auto
    then show ?thesis using True IH by simp
  next
    case False
    then show ?thesis using IH by simp
  qed
qed

lemma sum_filter:
  assumes "distinct ds" "\<forall>k d d'. P d k \<and> P d' k \<longrightarrow> d = d'"
  shows "sum_list (map (\<lambda>d. length (filter (P d) ks)) ds) =
         length (filter (\<lambda>k. \<exists>d\<in>set ds. P d k) ks)"
proof (induction ks)
  case Nil
  show ?case by simp
next
  case (Cons k ks)
  have "sum_list (map (\<lambda>d. length (filter (P d) (k # ks))) ds) =
        sum_list (map (\<lambda>d. (if P d k then 1 else 0) + length (filter (P d) ks)) ds)"
    by (rule arg_cong[where f=sum_list], rule map_cong) auto
  also have "\<dots> = sum_list (map (\<lambda>d. if P d k then 1 else 0) ds) +
                   sum_list (map (\<lambda>d. length (filter (P d) ks)) ds)"
    by (rule sum_list_addf)
  also have "sum_list (map (\<lambda>d. if P d k then 1 else 0) ds) =
             (if \<exists>d\<in>set ds. P d k then (1::nat) else 0)"
    using assms by (intro sum_indicator) auto
  finally show ?case using Cons.IH by simp
qed

lemma io_map_listing:
  "io_map (\<lambda>d. io_bind (os_listdir (D @ [d])) (\<lambda>l. io_return (length l))) ds w = (Inr ns, w1) \<Longrightarrow>
   ns = map (\<lambda>d. length (children (fs w) (D @ [d]))) ds \<and> w1 = w"
proof (induction ds arbitrary: ns w1)
  case Nil
  then show ?case by (simp add: io_return_apply)
next
  case (Cons d ds)
  from Cons.prems obtain n w2 where
    1: "io_bind (os_listdir (D @ [d])) (\<lambda>l. io_return (length l)) w = (Inr n, w2)"
    and 2: "io_bind (io_map (\<lambda>d. io_bind (os_listdir (D @ [d])) (\<lambda>l. io_return (length l))) ds)
              (\<lambda>ys. io_return (n # ys)) w2 = (Inr ns, w1)"
    unfolding io_map.simps by (blast dest: io_bind_InrD)
  from 1 have n: "n = length (children (fs w) (D @ [d]))" and w2: "w2 = w"
    by (auto simp: io_bind_apply io_return_apply os_listdir_def split: option.splits node.splits)
  from 2 obtain ys w3 where
    3: "io_map (\<lambda>d. io_bind (os_listdir (D @ [d])) (\<lambda>l. io_return (length l))) ds w = (Inr ys, w3)"
    and 4: "io_return (n # ys) w3 = (Inr ns, w1)"
    unfolding w2 by (blast dest: io_bind_InrD)
  from Cons.IH[OF 3] 4 n show ?case by (auto simp: io_return_apply)
qed

lemma count_listed_Inr:
  assumes "count_listed D w = (Inr n, w1)"
  shows "n = listed D (fs w)"
proof -
  from assms obtain ds w2 where 1: "os_listdir D w = (Inr ds, w2)"
    and 2: "io_bind (io_map (\<lambda>d. io_bind (os_listdir (D @ [d])) (\<lambda>l. io_return (length l))) ds)
              (\<lambda>ns. io_return (sum_list ns)) w2 = (Inr n, w1)"
    unfolding count_listed_def by (blast dest: io_bind_InrD)
  from 1 have ds: "ds = children (fs w) D" and w2: "w2 = w"
    by (auto simp: os_listdir_def split: option.splits node.splits)
  from 2 obtain ns w3 where
    3: "io_map (\<lambda>d. io_bind (os_listdir (D @ [d])) (\<lambda>l. io_return (length l))) ds w = (Inr ns, w3)"
    and 4: "io_return (sum_list ns) w3 = (Inr n, w1)"
    unfolding w2 by (blast dest: io_bind_InrD)
  from io_map_listing[OF 3] 4 ds show ?thesis by (auto simp: io_return_apply listed_def)
qed

text \<open>Nothing is printed before the loop over the classes has run.\<close>

lemma split_class_stays:
  assumes refl: "reflp R" and trans: "transp R"
    and mk: "\<And>p. stays R (os_mkdir p)" and cp: "\<And>s d. stays R (shutil_copy s d)"
  shows "stays R (split_class gen S T V ratio c)"
proof -
  have mkd: "stays R (os_makedirs p)" for p
    unfolding stays_def
  proof (intro allI impI)
    fix w r w' assume "os_makedirs p w = (r, w')"
    then show "R w w'"
      by (rule os_makedirs_rel[OF refl trans, rotated -1]) (use mk in \<open>auto simp: stays_def\<close>)
  qed
  have loop: "stays R (for_each imgs (\<lambda>img. io_bind (shutil_copy (s img) (d img)) (\<lambda>_. io_return ())))"
    for imgs :: "string list" and s d
    by (intro stays_for_each[OF refl trans] stays_bind[OF trans] cp stays_return[OF refl])
  show ?thesis
    unfolding split_class_def Let_def
    apply (rule stays_bind[OF trans stays_isdir[OF refl]])
    subgoal for is_dir
      apply (cases is_dir; simp only: if_True if_False)
       apply (rule stays_bind[OF trans stays_listdir[OF refl]])
      subgoal for entries
        apply (cases "train_test_split gen
                 (filter (\<lambda>img. endswith img [''.jpg'', ''.jpeg'', ''.png'']) entries) ratio 42")
         apply (simp only: sum.case)
         apply (rule stays_raise[OF refl])
        subgoal for p
          apply (cases p)
          apply (simp only: sum.case prod.case)
          apply (rule stays_bind[OF trans mkd])
          apply (rule stays_bind[OF trans mkd])
          apply (rule stays_bind[OF trans loop])
          apply (rule loop)
          done
        done
      apply (rule stays_return[OF refl])
      done
    done
qed

lemma class_loop_silent:
  assumes "for_each names (split_class gen S T V ratio) w = (r, w')"
  shows "stdout w' = stdout w"
proof -
  let ?R = "\<lambda>w w'. stdout w' = stdout w"
  have refl: "reflp ?R" by (rule reflpI) simp
  have trans: "transp ?R" by (rule transpI) simp
  have mk: "stays ?R (os_mkdir p)" for p
    unfolding stays_def by (auto elim!: os_mkdir_cases)
  have cp: "stays ?R (shutil_copy s d)" for s d
    unfolding stays_def by (auto elim!: shutil_copy_cases)
  have "stays ?R (for_each names (split_class gen S T V ratio))"
    by (intro stays_for_each[OF refl trans] split_class_stays[OF refl trans] mk cp)
  then show ?thesis using assms by (simp add: stays_def)
qed

lemma run_report:
  assumes "split_data gen S T V ratio w = (Inr u, w')"
  shows "stdout w' = stdout w @
           [''Data split complete. Training images: '' @ str_nat (listed T (fs w')),
            ''Validation images: '' @ str_nat (listed V (fs w'))]"
proof -
  from assms obtain names w0 where
    ls: "os_listdir S w = (Inr names, w0)"
    and rest: "io_bind (for_each names (split_class gen S T V ratio)) (\<lambda>_.
     io_bind (count_listed T) (\<lambda>n_train.
     io_bind (print (''Data split complete. Training images: '' @ str_nat n_train)) (\<lambda>_.
     io_bind (count_listed V) (\<lambda>n_val.
     print (''Validation images: '' @ str_nat n_val))))) w0 = (Inr u, w')"
    unfolding split_data_def by (blast dest: io_bind_InrD)
  have w0: "w0 = w" using os_listdir_same[OF ls] .
  from rest obtain x1 w1 where
    loop: "for_each names (split_class gen S T V ratio) w = (Inr x1, w1)"
    and r1: "io_bind (count_listed T) (\<lambda>n_train.
     io_bind (print (''Data split complete. Training images: '' @ str_nat n_train)) (\<lambda>_.
     io_bind (count_listed V) (\<lambda>n_val.
     print (''Validation images: '' @ str_nat n_val)))) w1 = (Inr u, w')"
    unfolding w0 by (blast dest: io_bind_InrD)
  from r1 obtain n1 w2 where c1: "count_listed T w1 = (Inr n1, w2)"
    and r2: "io_bind (print (''Data split complete. Training images: '' @ str_nat n1)) (\<lambda>_.
     io_bind (count_listed V) (\<lambda>n_val.
     print (''Validation images: '' @ str_nat n_val))) w2 = (Inr u, w')"
    by (blast dest: io_bind_InrD)
  from r2 obtain x3 w3 where p1: "print (''Data split complete. Training images: '' @ str_nat n1) w2 = (Inr x3, w3)"
    and r3: "io_bind (count_listed V) (\<lambda>n_val.
     print (''Validation images: '' @ str_nat n_val)) w3 = (Inr u, w')"
    by (blast dest: io_bind_InrD)
  from r3 obtain n2 w4 where c2: "count_listed V w3 = (Inr n2, w4)"
    and p2: "print (''Validation images: '' @ str_nat n2) w4 = (Inr u, w')"
    by (blast dest: io_bind_InrD)
  have w2: "w2 = w1" using count_listed_same[OF c1] .
  have w4: "w4 = w3" using count_listed_same[OF c2] .
  have w3: "w3 = w1\<lparr>stdout := stdout w1 @ [''Data split complete. Training images: '' @ str_nat n1]\<rparr>"
    using p1 unfolding w2 by (auto simp: print_def)
  have w': "w' = w3\<lparr>stdout := stdout w3 @ [''Validation images: '' @ str_nat n2]\<rparr>"
    using p2 unfolding w4 by (auto simp: print_def)
  have f3: "fs w3 = fs w1" by (simp add: w3)
  have f: "fs w' = fs w1" using f3 by (simp add: w')
  have n1: "listed T (fs w') = n1" using count_listed_Inr[OF c1] f by simp
  have n2: "listed V (fs w') = n2" using count_listed_Inr[OF c2] f f3 by simp
  have s3: "stdout w3 = stdout w1 @ [''Data split complete. Training images: '' @ str_nat n1]"
    by (simp add: w3)
  have s': "stdout w' = stdout w3 @ [''Validation images: '' @ str_nat n2]"
    by (simp add: w')
  have sw: "stdout w1 = stdout w" using class_loop_silent[OF loop] .
  show ?thesis unfolding s' s3 sw n1 n2 by simp
qed

section \<open>The network\<close>

lemma fold_update_keys:
  "distinct (map fst al) \<Longrightarrow>
   distinct (map fst (fold (\<lambda>kv d. AList.update (fst kv) (snd kv) d) kvs al)) \<and>
   set (map fst (fold (\<lambda>kv d. AList.update (fst kv) (snd kv) d) kvs al)) = fst ` set al \<union> fst ` set kvs"
proof (induction kvs arbitrary: al)
  case Nil
  then show ?case by simp
next
  case (Cons kv kvs)
  have d: "distinct (map fst (AList.update (fst kv) (snd kv) al))"
    using Cons.prems by (rule distinct_update)
  have s: "fst ` set (AList.update (fst kv) (snd kv) al) = insert (fst kv) (fst ` set al)"
    using arg_cong[OF update_keys[of "fst kv" "snd kv" al], of set] by (auto simp: image_iff)
  show ?case using Cons.IH[OF d] s by auto
qed

lemma length_dict: "length (dict kvs) = card (fst ` set kvs)"
proof -
  have "distinct (map fst (dict kvs))" "set (map fst (dict kvs)) = fst ` set kvs"
    using fold_update_keys[of "[]" kvs] by (simp_all add: dict_def)
  then show ?thesis by (metis distinct_card length_map)
qed

lemma io_map_isdir:
  "io_map (\<lambda>subdir. io_bind (os_path_isdir (d @ [subdir])) (\<lambda>b. io_return (subdir, b))) xs w =
     (Inr (map (\<lambda>s. (s, lookup (fs w) (d @ [s]) = Some Dir)) xs), w)"
  by (induction xs) (simp_all add: io_bind_apply io_return_apply os_path_isdir_def)

lemma flow_from_directory_result:
  assumes "flow_from_directory d w = (Inr ci, w')"
  shows "w' = w \<and> lookup (fs w) d = Some Dir \<and>
         ci = (let classes = filter (\<lambda>s. lookup (fs w) (d @ [s]) = Some Dir) (sort (children (fs w) d))
               in dict (zip classes [0..<length classes]))"
proof -
  have m: "map fst (filter snd (map (\<lambda>s. (s, P s)) xs)) = filter P xs" for P and xs :: "string list"
    by (induction xs) auto
  show ?thesis
    using assms
    by (auto simp: flow_from_directory_def io_bind_apply io_return_apply os_listdir_def io_map_isdir m Let_def
        comp_def split: option.splits node.splits)
qed

text \<open>
  Claim C8. The last layer of the model is a softmax dense layer with as many units as
  \<^verbatim>\<open>train_generator.class_indices\<close> has entries, which is the number of class
  directories found in the training directory; the model turns an image of
  \<open>299 \<times> 299 \<times> 3\<close> values into a vector of that length.
\<close>

theorem output_units:
  assumes "flow_from_directory d w = (Inr class_indices, w')"
  shows "last (model class_indices) = Dense (length class_indices) ''softmax'' \<and>
         sequential_shape (model class_indices) [img_size, img_size, 3] = Some [length class_indices] \<and>
         length class_indices = card {c \<in> set (children (fs w) d). lookup (fs w) (d @ [c]) = Some Dir}"
proof -
  let ?cl = "filter (\<lambda>s. lookup (fs w) (d @ [s]) = Some Dir) (sort (children (fs w) d))"
  from flow_from_directory_result[OF assms]
  have ci: "class_indices = dict (zip ?cl [0..<length ?cl])" by (simp add: Let_def)
  have "map fst (zip ?cl [0..<length ?cl]) = ?cl"
    by (rule map_fst_zip) simp
  then have "set (map fst (zip ?cl [0..<length ?cl])) = set ?cl"
    by (simp only:)
  then have "fst ` set (zip ?cl [0..<length ?cl]) = set ?cl"
    by (simp only: set_map)
  then have "length class_indices = card (set ?cl)" by (simp add: ci length_dict)
  moreover have "set ?cl = {c \<in> set (children (fs w) d). lookup (fs w) (d @ [c]) = Some Dir}"
    by auto
  ultimately have n: "length class_indices = card {c \<in> set (children (fs w) d). lookup (fs w) (d @ [c]) = Some Dir}"
    by simp
  have "last (model class_indices) = Dense (length class_indices) ''softmax''"
    by (simp add: model_def)
  moreover have "sequential_shape (model class_indices) [img_size, img_size, 3] = Some [length class_indices]"
    by (simp add: model_def)
  ultimately show ?thesis using n by simp
qed


theorem output_units_witness:
  "flow_from_directory train_dir \<lparr>fs = labelled_tree, stdout = [], copies = []\<rparr> =
     (Inr [(''a'', 0), (''b'', 1)], \<lparr>fs = labelled_tree, stdout = [], copies = []\<rparr>) \<and>
   sequential_shape (model [(''a'', 0), (''b'', 1)]) [img_size, img_size, 3] = Some [2] \<and>
   card {c \<in> set (children labelled_tree train_dir). lookup labelled_tree (train_dir @ [c]) = Some Dir} = 2"
proof -
  have h: "flow_from_directory train_dir \<lparr>fs = labelled_tree, stdout = [], copies = []\<rparr> =
     (Inr [(''a'', 0), (''b'', 1)], \<lparr>fs = labelled_tree, stdout = [], copies = []\<rparr>)"
    by code_simp
  from output_units [OF h] h show ?thesis by simp
qed


lemma freeze_loop_nth:
  "j \<le> length ls \<Longrightarrow>
   length (fold (\<lambda>i xs. xs[i := (xs ! i)\<lparr>trainable := False\<rparr>]) [0..<j] ls) = length ls \<and>
   (\<forall>i<length ls. fold (\<lambda>i xs. xs[i := (xs ! i)\<lparr>trainable := False\<rparr>]) [0..<j] ls ! i =
       (if i < j then (ls ! i)\<lparr>trainable := False\<rparr> else ls ! i))"
proof (induction j)
  case 0
  show ?case by simp
next
  case (Suc j)
  then have IH: "length (fold (\<lambda>i xs. xs[i := (xs ! i)\<lparr>trainable := False\<rparr>]) [0..<j] ls) = length ls"
    "\<And>i. i < length ls \<Longrightarrow> fold (\<lambda>i xs. xs[i := (xs ! i)\<lparr>trainable := False\<rparr>]) [0..<j] ls ! i =
       (if i < j then (ls ! i)\<lparr>trainable := False\<rparr> else ls ! i)"
    by simp_all
  from Suc.prems have j: "j < length ls" by simp
  show ?case
    using IH j by (auto simp: nth_list_update less_Suc_eq)
qed

lemma flags_set_trainable: "map trainable (layers (set_trainable v m)) = replicate (length (layers m)) v"
  by (simp add: set_trainable_def map_replicate_const comp_def)

lemma flags_freeze_first:
  "map trainable (layers (freeze_first k m)) =
     map (\<lambda>i. k \<le> i \<and> trainable (layers m ! i)) [0..<length (layers m)]"
proof -
  let ?j = "min k (length (layers m))"
  have j: "?j \<le> length (layers m)" by simp
  note F = freeze_loop_nth[OF j]
  show ?thesis
    apply (rule nth_equalityI)
    using F apply (simp add: freeze_first_def)
    using F apply (auto simp add: freeze_first_def)
    done
qed

lemma flags_fit: "map trainable (layers (fit t m)) = map trainable (layers m)"
  by (simp add: fit_def comp_def if_distrib cong: if_cong)

lemma flags_other:
  "c \<noteq> Freeze \<Longrightarrow> c \<noteq> FineTune \<Longrightarrow> map trainable (layers (exec opt c m)) = map trainable (layers m)"
  by (cases c) (simp_all add: flags_fit)

lemma flags_fold_other:
  "Freeze \<notin> set cs \<Longrightarrow> FineTune \<notin> set cs \<Longrightarrow>
   map trainable (layers (fold (exec opt) cs m)) = map trainable (layers m)"
  by (induction cs arbitrary: m) (auto simp: flags_other)

lemma length_layers_exec: "length (layers (exec opt c m)) = length (layers m)"
  using arg_cong[OF flags_other[of c opt m], of length]
    arg_cong[OF flags_set_trainable[of False m], of length]
    arg_cong[OF flags_freeze_first[of 249 "set_trainable True m"], of length]
    arg_cong[OF flags_set_trainable[of True m], of length]
  by (cases c) auto

lemma take_cells_cases:
  "k = 0 \<and> take k cells = [] \<or>
   (1 \<le> k \<and> k < 7 \<and> (\<exists>cs. take k cells = Freeze # cs \<and> Freeze \<notin> set cs \<and> FineTune \<notin> set cs)) \<or>
   (7 \<le> k \<and> (\<exists>cs ds. take k cells = Freeze # cs @ FineTune # ds \<and> Freeze \<notin> set ds \<and> FineTune \<notin> set ds))"
proof -
  let ?p1 = "[Define, Compile (1 / 1000), Callbacks, Fit 100, Evaluate]"
  let ?p2 = "[Compile (1 / 10000), Summary, Fit 50, Evaluate, Summary, Save]"
  have c: "cells = Freeze # ?p1 @ FineTune # ?p2" by (simp add: cells_def)
  consider "k = 0" | "1 \<le> k" "k < 7" | "7 \<le> k" by linarith
  then show ?thesis
  proof cases
    case 1 then show ?thesis by simp
  next
    case 2
    then obtain j where k: "k = Suc j" and j: "j \<le> 5" by (cases k) auto
    have h: "take j (?p1 @ X) = take j ?p1" for X using j by (simp del: append.simps)
    have "take k cells = Freeze # take j ?p1" unfolding c k take_Suc_Cons h ..
    moreover have "Freeze \<notin> set (take j ?p1) \<and> FineTune \<notin> set (take j ?p1)"
      using set_take_subset[of j ?p1] by auto
    ultimately show ?thesis using 2 by blast
  next
    case 3
    then obtain j where k: "k = 7 + j" by (metis le_Suc_ex)
    have "take k cells = Freeze # ?p1 @ FineTune # take j ?p2" unfolding c k by (simp add: numeral_eq_Suc)
    moreover have "Freeze \<notin> set (take j ?p2) \<and> FineTune \<notin> set (take j ?p2)"
      using set_take_subset[of j ?p2] by auto
    ultimately show ?thesis using 3 by blast
  qed
qed

lemma flags_backbone_after:
  "map trainable (layers (backbone_after opt imagenet k)) =
     (if k = 0 then replicate (length imagenet) True
      else if k < 7 then replicate (length imagenet) False
      else map (\<lambda>i. 249 \<le> i) [0..<length imagenet])"
proof -
  have n: "length (layers (InceptionV3 imagenet :: 'a network)) = length imagenet"
    by (simp add: InceptionV3_def)
  have fr: "map trainable (layers (InceptionV3 imagenet:: 'a network)) = replicate (length imagenet) True"
    by (simp add: InceptionV3_def comp_def map_replicate_const)
  from take_cells_cases[of k] show ?thesis
  proof (elim disjE conjE exE)
    assume "k = 0" "take k cells = []"
    then show ?thesis by (simp add: backbone_after_def fr)
  next
    fix cs assume k: "1 \<le> k" "k < 7" and t: "take k cells = Freeze # cs"
      and cs: "Freeze \<notin> set cs" "FineTune \<notin> set cs"
    show ?thesis using k
      by (simp add: backbone_after_def t flags_fold_other[OF cs] flags_set_trainable n)
  next
    fix cs ds assume k: "7 \<le> k" and t: "take k cells = Freeze # cs @ FineTune # ds"
      and ds: "Freeze \<notin> set ds" "FineTune \<notin> set ds"
    have len: "length (layers (fold (exec opt) cs (set_trainable False (InceptionV3 imagenet)))) = length imagenet"
      by (induction cs rule: rev_induct) (simp_all add: length_layers_exec set_trainable_def n)
    have st: "length (layers (set_trainable True m)) = length (layers m)" for m :: "'a network"
      by (simp add: set_trainable_def)
    have nth: "i < length (layers m) \<Longrightarrow> trainable (layers (set_trainable True m) ! i)" for m :: "'a network" and i
      by (simp add: set_trainable_def)
    show ?thesis using k
      by (simp add: backbone_after_def t flags_fold_other[OF ds] flags_freeze_first st len nth cong: map_cong)
  qed
qed

text \<open>
  Claim C7. The backbone's trainability follows a two-phase lifecycle. From the cell that
  freezes the backbone up to the fine-tuning cell (after \<open>1\<close> to \<open>6\<close> of the cells) no
  backbone layer is trainable; from the fine-tuning cell to the end of the notebook
  (after \<open>7\<close> or more cells) the layers of index below \<open>249\<close> are not trainable and
  all the others are. Between and after these two cells no cell changes a flag, whatever
  training does to the weights.
\<close>

theorem backbone_lifecycle:
  "i < length imagenet \<Longrightarrow>
   length (layers (backbone_after opt imagenet k)) = length imagenet \<and>
   trainable (layers (backbone_after opt imagenet k) ! i) =
     (if k = 0 then True else if k < 7 then False else 249 \<le> i)"
proof -
  assume i: "i < length imagenet"
  have len: "length (layers (backbone_after opt imagenet k)) = length imagenet"
    using arg_cong[OF flags_backbone_after[of opt imagenet k], of length] by (simp split: if_splits)
  have "trainable (layers (backbone_after opt imagenet k) ! i) =
        map trainable (layers (backbone_after opt imagenet k)) ! i"
    using i len by simp
  then show ?thesis using i len by (auto simp: flags_backbone_after)
qed

theorem backbone_lifecycle_witness:
  "250 < length (replicate 311 (0::nat)) \<and>
   \<not> trainable (layers (backbone_after (\<lambda>epochs x. x + epochs) (replicate 311 0) 5) ! 250) \<and>
   trainable (layers (backbone_after (\<lambda>epochs x. x + epochs) (replicate 311 0) 13) ! 250)"
  using backbone_lifecycle [of 250 "replicate 311 (0::nat)" "\<lambda>epochs x. x + epochs" 5]
    backbone_lifecycle [of 250 "replicate 311 (0::nat)" "\<lambda>epochs x. x + epochs" 13]
  by simp

end
